theory Spec2Isabelle
  imports Complex_Main "HOL-Library.Word" "HOL-Library.Sublist"
begin

section \<open>JavaScript values and strings\<close>

text \<open>
  A JavaScript string is a sequence of 16-bit code units; \<open>length\<close>, \<open>includes\<close>,
  \<open>startsWith\<close>, \<open>trim\<close> and the regular expressions of \<open>src/lib/security.ts\<close> (none
  carries the \<open>u\<close> flag) all work on code units.
\<close>

type_synonym jschar = "16 word"
type_synonym jsstring = "jschar list"

text \<open>String literals of the source, written as Isabelle strings.\<close>

definition js :: "string \<Rightarrow> jsstring" where
  "js s = map of_char s"

text \<open>
  The fields of an \<open>Error\<close> object that the library declares: \<open>name\<close> (here
  \<open>error_name\<close>), \<open>message\<close> and the optional \<open>stack\<close>.
\<close>

record js_error =
  error_name :: jsstring
  message :: jsstring
  stack :: "jsstring option"

text \<open>
  The functions are typed in TypeScript but test their arguments at run time
  (\<open>typeof x !== 'string'\<close>, \<open>Array.isArray\<close>, \<open>instanceof Error\<close>) and the tests call
  them with \<open>null\<close>. A value is a string, an array, an \<open>Error\<close> instance, another object
  with its properties, or anything else (\<open>undefined\<close>, \<open>null\<close>, booleans, numbers, symbols),
  which the code never looks into.
\<close>

datatype 'o jsval =
    JString jsstring
  | JArray "'o jsval list"
  | JError js_error
  | JObject "(jsstring \<times> 'o jsval) list"
  | JOther 'o

subsection \<open>Character classes\<close>

definition isDigit :: "jschar \<Rightarrow> bool" where
  "isDigit c \<longleftrightarrow> 0x30 \<le> c \<and> c \<le> 0x39"

definition isLower :: "jschar \<Rightarrow> bool" where
  "isLower c \<longleftrightarrow> 0x61 \<le> c \<and> c \<le> 0x7A"

definition isUpper :: "jschar \<Rightarrow> bool" where
  "isUpper c \<longleftrightarrow> 0x41 \<le> c \<and> c \<le> 0x5A"

text \<open>The class \<open>\w\<close>: \<open>[A-Za-z0-9_]\<close>.\<close>

definition isWordChar :: "jschar \<Rightarrow> bool" where
  "isWordChar c \<longleftrightarrow> isLower c \<or> isUpper c \<or> isDigit c \<or> c = 0x5F"

text \<open>
  The class \<open>\s\<close>, which is also what \<open>String.prototype.trim\<close> strips: ECMAScript's
  WhiteSpace (TAB, VT, FF, SP, NBSP, ZWNBSP and the Unicode space separators) and
  LineTerminator (LF, CR, LS, PS).
\<close>

definition isSpace :: "jschar \<Rightarrow> bool" where
  "isSpace c \<longleftrightarrow>
     c = 0x09 \<or> c = 0x0A \<or> c = 0x0B \<or> c = 0x0C \<or> c = 0x0D \<or> c = 0x20 \<or> c = 0xA0 \<or>
     c = 0x1680 \<or> (0x2000 \<le> c \<and> c \<le> 0x200A) \<or> c = 0x2028 \<or> c = 0x2029 \<or>
     c = 0x202F \<or> c = 0x205F \<or> c = 0x3000 \<or> c = 0xFEFF"

subsection \<open>String operations\<close>

definition trim :: "jsstring \<Rightarrow> jsstring" where
  "trim s = rev (dropWhile isSpace (rev (dropWhile isSpace s)))"

definition startsWith :: "jsstring \<Rightarrow> jsstring \<Rightarrow> bool" where
  "startsWith s p = prefix p s"

text \<open>\<open>s.includes(sub)\<close>: \<open>sub\<close> occurs at some position of \<open>s\<close>.\<close>

fun includes_str :: "jsstring \<Rightarrow> jsstring \<Rightarrow> bool" where
  "includes_str [] sub = (sub = [])"
| "includes_str (c # cs) sub = (prefix sub (c # cs) \<or> includes_str cs sub)"

section \<open>Regular expressions\<close>

text \<open>
  The patterns of the source are regular-expression literals. They are kept as syntax trees
  and run by one matcher, so that each table below can be read against its literal.
  A class \<open>[...]\<close> is a list of items.
\<close>

datatype class_item =
    One jschar
  | Range jschar jschar
  | DigitClass
  | WordClass
  | SpaceClass

datatype regex =
    Eps
  | Chr jschar
  | Cls "class_item list"
  | Seq regex regex
  | Alt regex regex
  | Opt regex
  | Star regex
  | Plus regex
  | Rep nat nat regex
  | Bol
  | Eol
  | WordB

text \<open>A \<open>RegExp\<close> object: the pattern and the \<open>i\<close> flag. No pattern of the source has
  the \<open>g\<close> or \<open>y\<close> flag, so \<open>test\<close> keeps no state between calls.\<close>

record RegExp =
  source :: regex
  ignoreCase :: bool

definition ch :: "char \<Rightarrow> jschar" where
  "ch c = of_char c"

definition seq :: "regex list \<Rightarrow> regex" where
  "seq rs = foldr Seq rs Eps"

definition lit :: "string \<Rightarrow> regex" where
  "lit s = seq (map (\<lambda>c. Chr (ch c)) s)"

definition re :: "regex list \<Rightarrow> RegExp" where
  "re rs = \<lparr>source = seq rs, ignoreCase = False\<rparr>"

definition re_i :: "regex list \<Rightarrow> RegExp" where
  "re_i rs = \<lparr>source = seq rs, ignoreCase = True\<rparr>"

text \<open>
  Under the \<open>i\<close> flag two characters match when their canonical (upper-case) forms
  agree. Every pattern character of the source is ASCII, and the canonical form of a
  non-ASCII code unit is never ASCII, so only the ASCII letters are folded here.
\<close>

definition toUpperAscii :: "jschar \<Rightarrow> jschar" where
  "toUpperAscii c = (if isLower c then c - 0x20 else c)"

definition toLowerAscii :: "jschar \<Rightarrow> jschar" where
  "toLowerAscii c = (if isUpper c then c + 0x20 else c)"

definition eq_char :: "bool \<Rightarrow> jschar \<Rightarrow> jschar \<Rightarrow> bool" where
  "eq_char i x c \<longleftrightarrow> x = c \<or> (i \<and> toUpperAscii x = toUpperAscii c)"

fun in_item :: "bool \<Rightarrow> class_item \<Rightarrow> jschar \<Rightarrow> bool" where
  "in_item i (One c) x = eq_char i x c"
| "in_item i (Range lo hi) x =
     ((lo \<le> x \<and> x \<le> hi)
      \<or> (i \<and> ((lo \<le> toUpperAscii x \<and> toUpperAscii x \<le> hi)
              \<or> (lo \<le> toLowerAscii x \<and> toLowerAscii x \<le> hi))))"
| "in_item i DigitClass x = isDigit x"
| "in_item i WordClass x = isWordChar x"
| "in_item i SpaceClass x = isSpace x"

definition in_class :: "bool \<Rightarrow> class_item list \<Rightarrow> jschar \<Rightarrow> bool" where
  "in_class i items x = list_ex (\<lambda>it. in_item i it x) items"

text \<open>
  A matcher state is a position in the input: the characters before it (nearest first)
  and the characters from it on. A pattern maps a state to the states where a match of it
  can end. \<open>test\<close> only asks whether some match exists, so the order in which a
  backtracking engine would try them does not matter.
\<close>

type_synonym mstate = "jsstring \<times> jsstring"

definition step_char :: "(jschar \<Rightarrow> bool) \<Rightarrow> mstate \<Rightarrow> mstate list" where
  "step_char P s = (case snd s of [] \<Rightarrow> [] | x # r \<Rightarrow> if P x then [(x # fst s, r)] else [])"

definition progress :: "mstate \<Rightarrow> mstate \<Rightarrow> bool" where
  "progress s t \<longleftrightarrow> length (snd t) < length (snd s)"

text \<open>
  \<open>r{m,n}\<close> runs \<open>r\<close> exactly \<open>m\<close> times and then up to \<open>n - m\<close> times more. As in
  ECMAScript's RepeatMatcher, an optional iteration that consumes nothing is dropped, so
  \<open>r*\<close> needs at most as many iterations as there are characters left.
\<close>

primrec repeat_exact :: "(mstate \<Rightarrow> mstate list) \<Rightarrow> nat \<Rightarrow> mstate \<Rightarrow> mstate list" where
  "repeat_exact f 0 s = [s]"
| "repeat_exact f (Suc k) s = concat (map (repeat_exact f k) (f s))"

primrec repeat_upto :: "(mstate \<Rightarrow> mstate list) \<Rightarrow> nat \<Rightarrow> mstate \<Rightarrow> mstate list" where
  "repeat_upto f 0 s = [s]"
| "repeat_upto f (Suc k) s = s # concat (map (repeat_upto f k) (filter (progress s) (f s)))"

definition word_before :: "mstate \<Rightarrow> bool" where
  "word_before s = (case fst s of [] \<Rightarrow> False | x # _ \<Rightarrow> isWordChar x)"

definition word_after :: "mstate \<Rightarrow> bool" where
  "word_after s = (case snd s of [] \<Rightarrow> False | x # _ \<Rightarrow> isWordChar x)"

primrec matchR :: "regex \<Rightarrow> bool \<Rightarrow> mstate \<Rightarrow> mstate list" where
  "matchR Eps i s = [s]"
| "matchR (Chr c) i s = step_char (\<lambda>x. eq_char i x c) s"
| "matchR (Cls items) i s = step_char (in_class i items) s"
| "matchR (Seq a b) i s = concat (map (matchR b i) (matchR a i s))"
| "matchR (Alt a b) i s = matchR a i s @ matchR b i s"
| "matchR (Opt a) i s = matchR a i s @ [s]"
| "matchR (Star a) i s = repeat_upto (matchR a i) (length (snd s)) s"
| "matchR (Plus a) i s =
     concat (map (\<lambda>t. repeat_upto (matchR a i) (length (snd t)) t) (matchR a i s))"
| "matchR (Rep m n a) i s =
     concat (map (repeat_upto (matchR a i) (n - m)) (repeat_exact (matchR a i) m s))"
| "matchR Bol i s = (if fst s = [] then [s] else [])"
| "matchR Eol i s = (if snd s = [] then [s] else [])"
| "matchR WordB i s = (if word_before s \<noteq> word_after s then [s] else [])"

text \<open>\<open>re.test(s)\<close>: a match may start at any position of \<open>s\<close>.\<close>

fun search :: "regex \<Rightarrow> bool \<Rightarrow> jsstring \<Rightarrow> jsstring \<Rightarrow> bool" where
  "search r i before [] = (matchR r i (before, []) \<noteq> [])"
| "search r i before (x # rest) =
     (matchR r i (before, x # rest) \<noteq> [] \<or> search r i (x # before) rest)"

definition test :: "RegExp \<Rightarrow> jsstring \<Rightarrow> bool" where
  "test rx s = search (source rx) (ignoreCase rx) [] s"

text \<open>
  \<open>s.split(/\s+/)\<close>: every maximal run of white space is a separator; a separator at the
  start or at the end of \<open>s\<close> leaves an empty string there, and the empty string splits
  into one empty string.
\<close>

function split_ws :: "jsstring \<Rightarrow> jsstring \<Rightarrow> jsstring list" where
  "split_ws acc [] = [rev acc]"
| "split_ws acc (c # cs) =
     (if isSpace c then rev acc # split_ws [] (dropWhile isSpace cs)
      else split_ws (c # acc) cs)"
  by pat_completeness auto
termination
  by (relation "measure (\<lambda>(acc, s). length s)") (auto simp: length_dropWhile_le less_Suc_eq_le)

definition split :: "jsstring \<Rightarrow> jsstring list" where
  "split s = split_ws [] s"

section \<open>URL validation\<close>

definition BLOCKED_HOSTNAMES :: "jsstring list" where
  "BLOCKED_HOSTNAMES =
     [js ''localhost'',
      js ''127.0.0.1'',
      js ''0.0.0.0'',
      js ''::1'',
      js ''[::1]'',
      js ''metadata.google.internal'',
      js ''169.254.169.254'']"

text \<open>The parts \<open>\d{1,3}\<close> and \<open>(1[6-9]|2\d|3[01])\<close> of the patterns.\<close>

definition digits_1_3 :: regex where
  "digits_1_3 = Rep 1 3 (Cls [DigitClass])"

definition octet_16_31 :: regex where
  "octet_16_31 =
     Alt (seq [lit ''1'', Cls [Range (ch CHR ''6'') (ch CHR ''9'')]])
         (Alt (seq [lit ''2'', Cls [DigitClass]])
              (seq [lit ''3'', Cls [One (ch CHR ''0''), One (ch CHR ''1'')]]))"

definition BLOCKED_HOSTNAME_PATTERNS :: "RegExp list" where
  "BLOCKED_HOSTNAME_PATTERNS =
     [re [Bol, lit ''10.'', digits_1_3, lit ''.'', digits_1_3, lit ''.'', digits_1_3, Eol],
      re [Bol, lit ''172.'', octet_16_31, lit ''.'', digits_1_3, lit ''.'', digits_1_3, Eol],
      re [Bol, lit ''192.168.'', digits_1_3, lit ''.'', digits_1_3, Eol],
      re_i [Bol, lit ''fc'',
            Rep 2 2 (Cls [Range (ch CHR ''0'') (ch CHR ''9''), Range (ch CHR ''a'') (ch CHR ''f'')]),
            lit '':''],
      re_i [Bol, lit ''fe80:'']]"

text \<open>
  The fields of a parsed \<open>URL\<close> that the code reads. \<open>new URL(input)\<close> is the platform's
  parser and \<open>toLowerCase\<close> the platform's case mapping: both are parameters of the
  model. The parser returns \<open>None\<close> where \<open>new URL\<close> throws, which is the only statement
  of the \<open>try\<close> block that can.
\<close>

record URL =
  protocol :: jsstring
  hostname :: jsstring

datatype url_error =
    InvalidProtocol jsstring
  | InternalUrl
  | PrivateNetworkUrl
  | InvalidUrlFormat

definition validateUrl ::
  "(jsstring \<Rightarrow> URL option) \<Rightarrow> (jsstring \<Rightarrow> jsstring) \<Rightarrow> jsstring \<Rightarrow> url_error + URL" where
  "validateUrl newURL toLowerCase input =
     (case newURL input of
        None \<Rightarrow> Inl InvalidUrlFormat
      | Some url \<Rightarrow>
          if protocol url \<notin> set [js ''http:'', js ''https:'']
          then Inl (InvalidProtocol (protocol url))
          else
            let host = toLowerCase (hostname url) in
            if host \<in> set BLOCKED_HOSTNAMES then Inl InternalUrl
            else if list_ex (\<lambda>p. test p host) BLOCKED_HOSTNAME_PATTERNS
            then Inl PrivateNetworkUrl
            else Inr url)"

section \<open>Command validation\<close>

definition ALLOWED_COMMANDS :: "jsstring list" where
  "ALLOWED_COMMANDS =
     [js ''npm'', js ''npx'', js ''node'', js ''cat'', js ''ls'', js ''pwd'', js ''mkdir'',
      js ''find'', js ''echo'', js ''cp'', js ''mv'', js ''rm'', js ''head'', js ''tail'',
      js ''wc'', js ''grep'', js ''which'', js ''env'', js ''vite'', js ''tsc'', js ''eslint'',
      js ''prettier'']"

definition BLOCKED_PATTERNS :: "RegExp list" where
  "BLOCKED_PATTERNS =
     [re [Cls [One (ch CHR '';''), One (ch CHR ''&''), One (ch CHR ''|''), One 0x60,
               One (ch CHR ''$'')]],
      re [lit ''../''],
      re [lit ''/etc/''],
      re [lit ''/proc/''],
      re [lit ''/sys/''],
      re [WordB, lit ''sudo'', WordB],
      re [WordB, lit ''curl'', WordB],
      re [WordB, lit ''wget'', WordB],
      re [WordB, lit ''chmod'', WordB],
      re [WordB, lit ''chown'', WordB],
      re [WordB, lit ''dd'', WordB],
      re [WordB, lit ''mkfs'', WordB],
      re [WordB, lit ''kill'', WordB],
      re [WordB, lit ''pkill'', WordB],
      re [WordB, lit ''reboot'', WordB],
      re [WordB, lit ''shutdown'', WordB]]"

datatype command_error =
    CommandRequired
  | CommandEmpty
  | CommandTooLong
  | BlockedPattern RegExp
  | CommandNotAllowed jsstring

text \<open>
  \<open>validateCommand\<close>. \<open>Inr (cmd, args)\<close> is \<open>{valid: true, cmd, args}\<close>. \<open>split\<close> never
  returns an empty array; were \<open>parts[0]\<close> missing, it would be \<open>undefined\<close>, which is
  not in the allow-list.
\<close>

definition validateCommand :: "'o jsval \<Rightarrow> command_error + (jsstring \<times> jsstring list)" where
  "validateCommand command =
     (case command of
        JString c \<Rightarrow>
          if c = [] then Inl CommandRequired
          else
            let trimmed = trim c in
            if length trimmed = 0 then Inl CommandEmpty
            else if length trimmed > 2000 then Inl CommandTooLong
            else
              (case find (\<lambda>pattern. test pattern trimmed) BLOCKED_PATTERNS of
                 Some pattern \<Rightarrow> Inl (BlockedPattern pattern)
               | None \<Rightarrow>
                   (case split trimmed of
                      [] \<Rightarrow> Inl (CommandNotAllowed (js ''undefined''))
                    | cmd # args \<Rightarrow>
                        if cmd \<notin> set ALLOWED_COMMANDS then Inl (CommandNotAllowed cmd)
                        else Inr (cmd, args)))
      | _ \<Rightarrow> Inl CommandRequired)"

section \<open>Package names\<close>

definition name_first :: "class_item list" where
  "name_first = [Range (ch CHR ''a'') (ch CHR ''z''), Range (ch CHR ''0'') (ch CHR ''9''),
                 One (ch CHR ''-''), One (ch CHR ''~'')]"

definition name_rest :: "class_item list" where
  "name_rest = [Range (ch CHR ''a'') (ch CHR ''z''), Range (ch CHR ''0'') (ch CHR ''9''),
                One (ch CHR ''-''), One (ch CHR ''.''), One (ch CHR ''_''), One (ch CHR ''~'')]"

definition version_chars :: "class_item list" where
  "version_chars = [WordClass, One (ch CHR ''.''), One (ch CHR ''^''), One (ch CHR ''~''),
                    One (ch CHR ''>''), One (ch CHR ''=''), One (ch CHR ''<''),
                    One (ch CHR ''|''), One (ch CHR ''-'')]"

definition VALID_PACKAGE_PATTERN :: RegExp where
  "VALID_PACKAGE_PATTERN =
     re [Bol,
         Opt (seq [lit ''@'', Cls name_first, Star (Cls name_rest), lit ''/'']),
         Cls name_first, Star (Cls name_rest),
         Opt (seq [lit ''@'', Plus (Cls version_chars)]),
         Eol]"

definition validatePackageName :: "'o jsval \<Rightarrow> bool" where
  "validatePackageName name =
     (case name of
        JString n \<Rightarrow>
          if n = [] then False
          else
            let trimmed = trim n in
            if length trimmed = 0 \<or> length trimmed > 214 then False
            else test VALID_PACKAGE_PATTERN trimmed
      | _ \<Rightarrow> False)"

text \<open>
  \<open>sanitizePackageList\<close>. The loop passes on the set \<open>seen\<close> and the two output arrays.
  \<open>String(pkg)\<close>, applied to the entries that are not strings, is the platform's
  conversion and a parameter of the model: it returns a string (\<open>Inr\<close>) or throws
  (\<open>Inl\<close>, for instance a TypeError for an object whose \<open>toString\<close> and \<open>valueOf\<close> are
  of no use), and what it throws leaves the function. The result is the pair
  \<open>(valid, invalid)\<close>.
\<close>

fun sanitize_loop ::
  "('o jsval \<Rightarrow> 'x + jsstring) \<Rightarrow> 'o jsval list \<Rightarrow> jsstring set \<Rightarrow> jsstring list \<Rightarrow> jsstring list
    \<Rightarrow> 'x + jsstring list \<times> jsstring list" where
  "sanitize_loop String [] seen valid invalid = Inr (valid, invalid)"
| "sanitize_loop String (pkg # rest) seen valid invalid =
     (case pkg of
        JString p \<Rightarrow>
          let trimmed = trim p in
          if trimmed \<in> seen then sanitize_loop String rest seen valid invalid
          else if validatePackageName (JString trimmed :: 'o jsval)
          then sanitize_loop String rest (insert trimmed seen) (valid @ [trimmed]) invalid
          else sanitize_loop String rest (insert trimmed seen) valid (invalid @ [trimmed])
      | _ \<Rightarrow>
          (case String pkg of
             Inl thrown \<Rightarrow> Inl thrown
           | Inr s \<Rightarrow> sanitize_loop String rest seen valid (invalid @ [s])))"

definition sanitizePackageList ::
  "('o jsval \<Rightarrow> 'x + jsstring) \<Rightarrow> 'o jsval \<Rightarrow> 'x + jsstring list \<times> jsstring list" where
  "sanitizePackageList String packages =
     (case packages of
        JArray pkgs \<Rightarrow> sanitize_loop String pkgs {} [] []
      | _ \<Rightarrow> Inr ([], []))"

section \<open>Path validation\<close>

datatype path_error =
    PathRequired
  | PathTraversal
  | NullBytes
  | OutsideSandbox jsstring

text \<open>
  \<open>validateSandboxPath(path, allowedBase = '/home/user/app')\<close>. The second argument is
  \<open>None\<close> when the caller leaves it out. \<open>Inr\<close> carries \<open>normalizedPath\<close>; the error of
  the last check names the base it was given.
\<close>

definition DEFAULT_BASE :: jsstring where
  "DEFAULT_BASE = js ''/home/user/app''"

definition VERCEL_SANDBOX :: jsstring where
  "VERCEL_SANDBOX = js ''/vercel/sandbox''"

definition validateSandboxPath :: "'o jsval \<Rightarrow> jsstring option \<Rightarrow> path_error + jsstring" where
  "validateSandboxPath path base =
     (let allowedBase = (case base of None \<Rightarrow> DEFAULT_BASE | Some b \<Rightarrow> b) in
      case path of
        JString p \<Rightarrow>
          if p = [] then Inl PathRequired
          else if includes_str p (js ''..'') then Inl PathTraversal
          else if includes_str p [0] then Inl NullBytes
          else
            let fullPath = (if startsWith p (js ''/'') then p else allowedBase @ js ''/'' @ p) in
            if \<not> startsWith fullPath allowedBase \<and> \<not> startsWith fullPath VERCEL_SANDBOX
            then Inl (OutsideSandbox allowedBase)
            else Inr fullPath
      | _ \<Rightarrow> Inl PathRequired)"

section \<open>Safe error responses\<close>

record error_response =
  error :: jsstring
  context' :: jsstring

definition GENERIC_ERROR :: jsstring where
  "GENERIC_ERROR = js ''An unexpected error occurred.''"

definition safeErrorResponse :: "'o jsval \<Rightarrow> jsstring \<Rightarrow> error_response" where
  "safeErrorResponse err ctx =
     (case err of
        JError e \<Rightarrow> \<lparr>error = message e, context' = ctx\<rparr>
      | _ \<Rightarrow> \<lparr>error = GENERIC_ERROR, context' = ctx\<rparr>)"

section \<open>Numbers\<close>

text \<open>
  A JavaScript number is a double: a finite value, an infinity or NaN. The limit and the
  window of the rate limiter are such numbers and are not validated. The sign of zero plays
  no part in the code and is left out. Sums and differences of finite numbers are rounded
  to a double by \<open>rnd\<close>, the platform's rounding, which is a parameter of the model; the
  sums and differences below combine a time value or an array length with a finite number
  and so stay in the finite range.
\<close>

datatype jsnum = Fin real | PInf | NInf | NaN

fun js_add :: "(real \<Rightarrow> real) \<Rightarrow> jsnum \<Rightarrow> jsnum \<Rightarrow> jsnum" where
  "js_add rnd NaN b = NaN"
| "js_add rnd a NaN = NaN"
| "js_add rnd PInf NInf = NaN"
| "js_add rnd NInf PInf = NaN"
| "js_add rnd PInf b = PInf"
| "js_add rnd a PInf = PInf"
| "js_add rnd NInf b = NInf"
| "js_add rnd a NInf = NInf"
| "js_add rnd (Fin a) (Fin b) = Fin (rnd (a + b))"

fun js_sub :: "(real \<Rightarrow> real) \<Rightarrow> jsnum \<Rightarrow> jsnum \<Rightarrow> jsnum" where
  "js_sub rnd NaN b = NaN"
| "js_sub rnd a NaN = NaN"
| "js_sub rnd PInf PInf = NaN"
| "js_sub rnd NInf NInf = NaN"
| "js_sub rnd PInf b = PInf"
| "js_sub rnd a PInf = NInf"
| "js_sub rnd NInf b = NInf"
| "js_sub rnd a NInf = PInf"
| "js_sub rnd (Fin a) (Fin b) = Fin (rnd (a - b))"

text \<open>\<open>a < b\<close> and \<open>a >= b\<close>; both are false when an operand is NaN.\<close>

fun js_lt :: "jsnum \<Rightarrow> jsnum \<Rightarrow> bool" where
  "js_lt NaN b = False"
| "js_lt a NaN = False"
| "js_lt a NInf = False"
| "js_lt PInf b = False"
| "js_lt NInf b = True"
| "js_lt a PInf = True"
| "js_lt (Fin a) (Fin b) = (a < b)"

fun js_ge :: "jsnum \<Rightarrow> jsnum \<Rightarrow> bool" where
  "js_ge NaN b = False"
| "js_ge a NaN = False"
| "js_ge a NInf = True"
| "js_ge PInf b = True"
| "js_ge NInf b = False"
| "js_ge a PInf = False"
| "js_ge (Fin a) (Fin b) = (a \<ge> b)"

text \<open>\<open>Math.max(a, b)\<close>: NaN when an argument is NaN.\<close>

fun js_max :: "jsnum \<Rightarrow> jsnum \<Rightarrow> jsnum" where
  "js_max NaN b = NaN"
| "js_max a NaN = NaN"
| "js_max PInf b = PInf"
| "js_max a PInf = PInf"
| "js_max NInf b = b"
| "js_max a NInf = a"
| "js_max (Fin a) (Fin b) = Fin (max a b)"

section \<open>Rate limiting\<close>

text \<open>
  The store is the module's \<open>Map\<close>; every function that touches it takes it and returns
  it. \<open>Date.now()\<close> gives an integral time value and is an argument, \<open>now\<close>; the time
  stamps of a bucket are such values. An argument left out is \<open>None\<close> and takes its default.
\<close>

record RateLimitEntry =
  timestamps :: "int list"

type_synonym rate_store = "jsstring \<rightharpoonup> RateLimitEntry"

record rate_limit_result =
  allowed :: bool
  remaining :: jsnum
  resetMs :: jsnum

definition time :: "int \<Rightarrow> jsnum" where
  "time t = Fin (of_int t)"

definition count :: "'a list \<Rightarrow> jsnum" where
  "count xs = Fin (of_nat (length xs))"

definition checkRateLimit ::
  "(real \<Rightarrow> real) \<Rightarrow> rate_store \<Rightarrow> int \<Rightarrow> jsstring \<Rightarrow> jsnum option \<Rightarrow> jsnum option
     \<Rightarrow> rate_limit_result \<times> rate_store" where
  "checkRateLimit rnd rateLimitStore now key maxRequestsArg windowMsArg =
     (let maxRequests = (case maxRequestsArg of None \<Rightarrow> Fin 30 | Some n \<Rightarrow> n);
          windowMs = (case windowMsArg of None \<Rightarrow> Fin 60000 | Some w \<Rightarrow> w);
          entry = (case rateLimitStore key of None \<Rightarrow> \<lparr>timestamps = []\<rparr> | Some e \<Rightarrow> e);
          ts = filter (\<lambda>t. js_lt (js_sub rnd (time now) (time t)) windowMs) (timestamps entry);
          remaining = js_max (Fin 0) (js_sub rnd maxRequests (count ts));
          oldestInWindow = (case ts of [] \<Rightarrow> now | t # _ \<Rightarrow> if t = 0 then now else t);
          resetMs = js_sub rnd (js_add rnd (time oldestInWindow) windowMs) (time now)
      in if js_ge (count ts) maxRequests
         then (\<lparr>allowed = False, remaining = Fin 0, resetMs = resetMs\<rparr>,
               rateLimitStore(key \<mapsto> entry\<lparr>timestamps := ts\<rparr>))
         else (\<lparr>allowed = True, remaining = js_sub rnd remaining (Fin 1), resetMs = resetMs\<rparr>,
               rateLimitStore(key \<mapsto> entry\<lparr>timestamps := ts @ [now]\<rparr>)))"

text \<open>
  The callback of \<open>setInterval\<close>: every bucket is pruned to the time stamps of the last
  300000 milliseconds and a bucket left empty is deleted. The timer fires between calls
  (the program has one thread); when it fires is not modelled, a sweep can stand anywhere
  in a run.
\<close>

definition sweep :: "(real \<Rightarrow> real) \<Rightarrow> int \<Rightarrow> rate_store \<Rightarrow> rate_store" where
  "sweep rnd now rateLimitStore =
     (\<lambda>key. case rateLimitStore key of
        None \<Rightarrow> None
      | Some entry \<Rightarrow>
          let ts = filter (\<lambda>t. js_lt (js_sub rnd (time now) (time t)) (Fin 300000))
                     (timestamps entry)
          in if length ts = 0 then None else Some (entry\<lparr>timestamps := ts\<rparr>))"

text \<open>
  A run of the module on one key: calls of \<open>checkRateLimit\<close> with the same limit and
  window, and sweeps, each at the time it reads from the clock. The run returns the time
  stamps of the calls it admitted, in order, and the store it leaves.
\<close>

datatype event = Call int | Sweep int


fun run ::
  "(real \<Rightarrow> real) \<Rightarrow> jsstring \<Rightarrow> jsnum option \<Rightarrow> jsnum option \<Rightarrow> rate_store \<Rightarrow> event list
     \<Rightarrow> int list \<times> rate_store" where
  "run rnd key n w st [] = ([], st)"
| "run rnd key n w st (Call t # es) =
     (let (r, st') = checkRateLimit rnd st t key n w;
          (admitted, st'') = run rnd key n w st' es
      in ((if allowed r then [t] else []) @ admitted, st''))"
| "run rnd key n w st (Sweep t # es) = run rnd key n w (sweep rnd t st) es"

definition bucket :: "rate_store \<Rightarrow> jsstring \<Rightarrow> int list" where
  "bucket st key = (case st key of None \<Rightarrow> [] | Some e \<Rightarrow> timestamps e)"

section \<open>Reference definitions for the claims\<close>

text \<open>
  The definitions of this section are not taken from the source. They say in terms of
  lists what the claims say in words, and the theorems below relate the functions of
  the source to them.
\<close>

text \<open>The white-space-delimited tokens of a string: its maximal runs of characters that
  are not white space.\<close>

function words_spec :: "jsstring \<Rightarrow> jsstring list" where
  "words_spec s =
     (case dropWhile isSpace s of
        [] \<Rightarrow> []
      | c # cs \<Rightarrow> takeWhile (\<lambda>x. \<not> isSpace x) (c # cs)
                 # words_spec (dropWhile (\<lambda>x. \<not> isSpace x) (c # cs)))"
  by pat_completeness auto
termination
proof (relation "measure length")
  show "wf (measure length)" by simp
next
  fix s :: jsstring and c cs
  assume d: "dropWhile isSpace s = c # cs"
  then have "\<not> isSpace c" using hd_dropWhile [of isSpace s] by auto
  then have "length (dropWhile (\<lambda>x. \<not> isSpace x) (c # cs)) \<le> length cs"
    by (simp add: length_dropWhile_le)
  moreover have "length (c # cs) \<le> length s"
    using d length_dropWhile_le [of isSpace s] by simp
  ultimately show "(dropWhile (\<lambda>x. \<not> isSpace x) (c # cs), s) \<in> measure length" by simp
qed

declare words_spec.simps [simp del]

text \<open>
  The grammar of package names as the pattern has it: a segment starts with a lower-case
  letter, a digit, \<open>-\<close> or \<open>~\<close> and goes on with these, \<open>.\<close> and \<open>_\<close>; the scope is
  \<open>@\<close>, a segment and \<open>/\<close>; the version is \<open>@\<close> and a non-empty run of word
  characters, \<open>.\<close>, \<open>-\<close> and the operators \<open>^ ~ > = < |\<close>.
\<close>

definition is_name_first :: "jschar \<Rightarrow> bool" where
  "is_name_first c \<longleftrightarrow> isLower c \<or> isDigit c \<or> c = ch CHR ''-'' \<or> c = ch CHR ''~''"

definition is_name_rest :: "jschar \<Rightarrow> bool" where
  "is_name_rest c \<longleftrightarrow> isLower c \<or> isDigit c \<or> c = ch CHR ''-'' \<or> c = ch CHR ''.''
     \<or> c = ch CHR ''_'' \<or> c = ch CHR ''~''"

definition is_version_char :: "jschar \<Rightarrow> bool" where
  "is_version_char c \<longleftrightarrow> isWordChar c \<or> c = ch CHR ''.'' \<or> c = ch CHR ''^'' \<or> c = ch CHR ''~''
     \<or> c = ch CHR ''>'' \<or> c = ch CHR ''='' \<or> c = ch CHR ''<'' \<or> c = ch CHR ''|''
     \<or> c = ch CHR ''-''"

definition segment :: "jsstring \<Rightarrow> bool" where
  "segment w \<longleftrightarrow> (\<exists>c cs. w = c # cs \<and> is_name_first c \<and> list_all is_name_rest cs)"

definition scope_part :: "jsstring \<Rightarrow> bool" where
  "scope_part w \<longleftrightarrow> w = [] \<or> (\<exists>sc. segment sc \<and> w = ch CHR ''@'' # sc @ [ch CHR ''/''])"

definition version_part :: "jsstring \<Rightarrow> bool" where
  "version_part w \<longleftrightarrow> w = [] \<or> (\<exists>v. v \<noteq> [] \<and> list_all is_version_char v \<and> w = ch CHR ''@'' # v)"

definition package_grammar :: "jsstring \<Rightarrow> bool" where
  "package_grammar t \<longleftrightarrow>
     (\<exists>sc nm ver. t = sc @ nm @ ver \<and> scope_part sc \<and> segment nm \<and> version_part ver)"

text \<open>
  The grammar of package names as the specification words it: scope and name are non-empty
  runs of lower-case letters, digits, \<open>-\<close>, \<open>.\<close>, \<open>_\<close> and \<open>~\<close>; the version is a
  non-empty run of digits, dots and the operators \<open>^ ~ > = < |\<close>; at most 214 characters.
\<close>

definition claimed_version_char :: "jschar \<Rightarrow> bool" where
  "claimed_version_char c \<longleftrightarrow> isDigit c \<or> c = ch CHR ''.'' \<or> c = ch CHR ''^'' \<or> c = ch CHR ''~''
     \<or> c = ch CHR ''>'' \<or> c = ch CHR ''='' \<or> c = ch CHR ''<'' \<or> c = ch CHR ''|''"

definition claimed_package_name :: "jsstring \<Rightarrow> bool" where
  "claimed_package_name t \<longleftrightarrow>
     length t \<le> 214 \<and>
     (\<exists>sc nm ver. t = sc @ nm @ ver
        \<and> (sc = [] \<or> (\<exists>w. w \<noteq> [] \<and> list_all is_name_rest w \<and> sc = ch CHR ''@'' # w @ [ch CHR ''/'']))
        \<and> nm \<noteq> [] \<and> list_all is_name_rest nm
        \<and> (ver = [] \<or> (\<exists>v. v \<noteq> [] \<and> list_all claimed_version_char v \<and> ver = ch CHR ''@'' # v)))"

text \<open>
  Deduplication by exact match that keeps the first occurrence of every element, and the
  string entries of an array.
\<close>

primrec dedup_first :: "'a list \<Rightarrow> 'a list" where
  "dedup_first [] = []"
| "dedup_first (x # xs) = x # removeAll x (dedup_first xs)"

definition strings_of :: "'o jsval list \<Rightarrow> jsstring list" where
  "strings_of xs = concat (map (\<lambda>v. case v of JString s \<Rightarrow> [s] | _ \<Rightarrow> []) xs)"

text \<open>
  What an entry adds to \<open>invalid\<close>, given the entries before it: an entry that is not a
  string adds \<open>String(entry)\<close>; a string adds its trimmed form when no string before it has
  the same trimmed form and the trimmed form is not a valid name. \<open>converts\<close> says that
  \<open>String\<close> returns for every entry that is not a string.
\<close>

definition adds_invalid ::
  "('o jsval \<Rightarrow> 'x + jsstring) \<Rightarrow> 'o jsval list \<Rightarrow> 'o jsval \<Rightarrow> jsstring list" where
  "adds_invalid String earlier v =
     (case v of
        JString s \<Rightarrow>
          if trim s \<notin> set (map trim (strings_of earlier))
             \<and> \<not> validatePackageName (JString (trim s) :: 'o jsval)
          then [trim s] else []
      | _ \<Rightarrow> (case String v of Inl thrown \<Rightarrow> [] | Inr s \<Rightarrow> [s]))"

definition invalid_entries :: "('o jsval \<Rightarrow> 'x + jsstring) \<Rightarrow> 'o jsval list \<Rightarrow> jsstring list" where
  "invalid_entries String xs =
     concat (map (\<lambda>i. adds_invalid String (take i xs) (xs ! i)) [0..<length xs])"

definition converts :: "('o jsval \<Rightarrow> 'x + jsstring) \<Rightarrow> 'o jsval list \<Rightarrow> bool" where
  "converts String xs =
     list_all (\<lambda>v. case v of JString s \<Rightarrow> True | _ \<Rightarrow> \<exists>s. String v = Inr s) xs"

text \<open>
  The batch form as the specification words it, on an array of strings: the entries are
  deduplicated by exact match and the remaining entries partitioned by \<open>validatePackageName\<close>.
\<close>

definition claimed_sanitize :: "jsstring list \<Rightarrow> jsstring list \<times> jsstring list" where
  "claimed_sanitize entries =
     (filter (\<lambda>e. validatePackageName (JString e :: unit jsval)) (dedup_first entries),
      filter (\<lambda>e. \<not> validatePackageName (JString e :: unit jsval)) (dedup_first entries))"

text \<open>
  The private IPv4 hosts in dotted form: \<open>10.x.x.x\<close>, \<open>172.16\<close> to \<open>172.31\<close> and
  \<open>192.168.x.x\<close>, every \<open>x\<close> one to three digits.
\<close>

definition digit_group :: "jsstring \<Rightarrow> bool" where
  "digit_group w \<longleftrightarrow> 1 \<le> length w \<and> length w \<le> 3 \<and> list_all isDigit w"

definition second_172 :: "jsstring \<Rightarrow> bool" where
  "second_172 w \<longleftrightarrow>
     (\<exists>d. w = [ch CHR ''1'', d] \<and> ch CHR ''6'' \<le> d \<and> d \<le> ch CHR ''9'')
     \<or> (\<exists>d. w = [ch CHR ''2'', d] \<and> isDigit d)
     \<or> w = js ''30'' \<or> w = js ''31''"

definition private_ipv4_host :: "jsstring \<Rightarrow> bool" where
  "private_ipv4_host h \<longleftrightarrow>
     (\<exists>a b c. digit_group a \<and> digit_group b \<and> digit_group c
        \<and> h = js ''10.'' @ a @ js ''.'' @ b @ js ''.'' @ c)
     \<or> (\<exists>s b c. second_172 s \<and> digit_group b \<and> digit_group c
        \<and> h = js ''172.'' @ s @ js ''.'' @ b @ js ''.'' @ c)
     \<or> (\<exists>b c. digit_group b \<and> digit_group c \<and> h = js ''192.168.'' @ b @ js ''.'' @ c)"


definition representable :: "(real \<Rightarrow> real) \<Rightarrow> jsnum \<Rightarrow> bool" where
  "representable rnd x = (case x of Fin a \<Rightarrow> rnd a = a | _ \<Rightarrow> True)"




text \<open>
  The message a caught value carries: the \<open>message\<close> of an \<open>Error\<close>, the \<open>message\<close>
  property of another object when it is a string, or a thrown string itself; it is
  readable when it is not empty. The response as the specification words it surfaces the
  readable message of the caught value, whatever the value is, and the generic message
  otherwise.
\<close>

definition carried_message :: "'o jsval \<Rightarrow> jsstring option" where
  "carried_message v =
     (case v of
        JString s \<Rightarrow> Some s
      | JError e \<Rightarrow> Some (message e)
      | JObject props \<Rightarrow>
          (case map_of props (js ''message'') of Some (JString m) \<Rightarrow> Some m | _ \<Rightarrow> None)
      | _ \<Rightarrow> None)"

definition readable_message :: "'o jsval \<Rightarrow> jsstring option" where
  "readable_message v =
     (case carried_message v of Some m \<Rightarrow> if m = [] then None else Some m | None \<Rightarrow> None)"

definition claimed_response :: "'o jsval \<Rightarrow> jsstring \<Rightarrow> error_response" where
  "claimed_response v ctx =
     \<lparr>error = (case readable_message v of Some m \<Rightarrow> m | None \<Rightarrow> GENERIC_ERROR),
      context' = ctx\<rparr>"

section \<open>Properties of the string operations\<close>

lemma includes_str_iff: "includes_str s sub \<longleftrightarrow> (\<exists>a b. s = a @ sub @ b)"
proof (induction s)
  case Nil
  then show ?case by auto
next
  case (Cons c cs)
  show ?case
  proof
    assume "includes_str (c # cs) sub"
    then consider "prefix sub (c # cs)" | "includes_str cs sub" by auto
    then show "\<exists>a b. c # cs = a @ sub @ b"
    proof cases
      case 1
      then obtain b where "c # cs = sub @ b" by (auto simp: prefix_def)
      then have "c # cs = [] @ sub @ b" by simp
      then show ?thesis by blast
    next
      case 2
      with Cons.IH obtain a b where "cs = a @ sub @ b" by blast
      then have "c # cs = (c # a) @ sub @ b" by simp
      then show ?thesis by blast
    qed
  next
    assume "\<exists>a b. c # cs = a @ sub @ b"
    then obtain a b where ab: "c # cs = a @ sub @ b" by blast
    show "includes_str (c # cs) sub"
    proof (cases a)
      case Nil
      with ab have "prefix sub (c # cs)" by (simp add: prefix_def)
      then show ?thesis by simp
    next
      case (Cons x a')
      with ab have "cs = a' @ sub @ b" by simp
      with Cons.IH have "includes_str cs sub" by blast
      then show ?thesis by simp
    qed
  qed
qed

lemma includes_str_singleton: "includes_str s [c] \<longleftrightarrow> c \<in> set s"
  by (induction s) auto

section \<open>Path validation: the claims\<close>

text \<open>
  C6. Every string that contains \<open>..\<close> or a null code unit is rejected, wherever it
  occurs and whatever the base. Every other non-empty string that does not start with \<open>/\<close>
  is joined to the allowed base, and the candidate is returned as \<open>normalizedPath\<close> exactly
  when it starts with the allowed base or with \<open>/vercel/sandbox\<close>; otherwise the call is
  rejected as outside the sandbox. The empty string is rejected before any of this, as a
  missing path.
\<close>

theorem validateSandboxPath_spec:
  fixes path :: jsstring and base :: "jsstring option"
  defines "b \<equiv> (case base of None \<Rightarrow> DEFAULT_BASE | Some x \<Rightarrow> x)"
  defines "candidate \<equiv> (if startsWith path (js ''/'') then path else b @ js ''/'' @ path)"
  shows "validateSandboxPath (JString [] :: 'o jsval) base = Inl PathRequired
       \<and> (0 \<in> set path \<or> (\<exists>u v. path = u @ js ''..'' @ v)
            \<longrightarrow> isl (validateSandboxPath (JString path :: 'o jsval) base))
       \<and> (path \<noteq> [] \<and> 0 \<notin> set path \<and> (\<forall>u v. path \<noteq> u @ js ''..'' @ v)
            \<longrightarrow> validateSandboxPath (JString path :: 'o jsval) base =
                 (if startsWith candidate b \<or> startsWith candidate VERCEL_SANDBOX
                  then Inr candidate else Inl (OutsideSandbox b)))"
proof -
  have dots: "includes_str path (js ''..'') \<longleftrightarrow> (\<exists>u v. path = u @ js ''..'' @ v)"
    by (rule includes_str_iff)
  have nul: "includes_str path [0] \<longleftrightarrow> 0 \<in> set path"
    by (rule includes_str_singleton)
  have empty: "validateSandboxPath (JString [] :: 'o jsval) base = Inl PathRequired"
    by (simp add: validateSandboxPath_def)
  have rest: "(0 \<in> set path \<or> (\<exists>u v. path = u @ js ''..'' @ v)
            \<longrightarrow> isl (validateSandboxPath (JString path :: 'o jsval) base))
       \<and> (path \<noteq> [] \<and> 0 \<notin> set path \<and> (\<forall>u v. path \<noteq> u @ js ''..'' @ v)
            \<longrightarrow> validateSandboxPath (JString path :: 'o jsval) base =
                 (if startsWith candidate b \<or> startsWith candidate VERCEL_SANDBOX
                  then Inr candidate else Inl (OutsideSandbox b)))"
    unfolding b_def candidate_def validateSandboxPath_def Let_def jsval.case dots nul
    by (cases base) auto
  from empty rest show ?thesis by blast
qed

theorem validateSandboxPath_spec_witness:
  "isl (validateSandboxPath (JString (js ''../../etc/passwd'') :: unit jsval) None)
   \<and> isl (validateSandboxPath (JString (js ''a'' @ [0] @ js ''.txt'') :: unit jsval) None)
   \<and> validateSandboxPath (JString (js ''src/App.tsx'') :: unit jsval) None
         = Inr (js ''/home/user/app/src/App.tsx'')
   \<and> validateSandboxPath (JString (js ''/tmp/x'') :: unit jsval) (Some (js ''/srv''))
         = Inl (OutsideSandbox (js ''/srv''))"
proof -
  have d1: "js ''../../etc/passwd'' = [] @ js ''..'' @ js ''/../etc/passwd''"
    by (simp add: js_def)
  have d2: "\<forall>u v. js ''src/App.tsx'' \<noteq> u @ js ''..'' @ v"
    using includes_str_iff [of "js ''src/App.tsx''" "js ''..''"] by (simp add: js_def)
  have d3: "\<forall>u v. js ''/tmp/x'' \<noteq> u @ js ''..'' @ v"
    using includes_str_iff [of "js ''/tmp/x''" "js ''..''"] by (simp add: js_def)
  have "isl (validateSandboxPath (JString (js ''../../etc/passwd'') :: unit jsval) None)"
    using validateSandboxPath_spec [where ?'o = unit and path = "js ''../../etc/passwd''" and base = None] d1 by blast
  moreover have "isl (validateSandboxPath (JString (js ''a'' @ [0] @ js ''.txt'') :: unit jsval) None)"
    using validateSandboxPath_spec [where ?'o = unit and path = "js ''a'' @ [0] @ js ''.txt''" and base = None] by simp
  moreover have "validateSandboxPath (JString (js ''src/App.tsx'') :: unit jsval) None
         = Inr (js ''/home/user/app/src/App.tsx'')"
    using validateSandboxPath_spec [where ?'o = unit and path = "js ''src/App.tsx''" and base = None] d2
    by (simp add: js_def startsWith_def DEFAULT_BASE_def)
  moreover have "validateSandboxPath (JString (js ''/tmp/x'') :: unit jsval) (Some (js ''/srv''))
         = Inl (OutsideSandbox (js ''/srv''))"
    using validateSandboxPath_spec [where ?'o = unit and path = "js ''/tmp/x''" and base = "Some (js ''/srv'')"] d3
    by (simp add: js_def startsWith_def VERCEL_SANDBOX_def)
  ultimately show ?thesis by blast
qed

text \<open>
  The empty string contains neither \<open>..\<close> nor a null code unit and does not start with
  \<open>/\<close>; joined to the default base it gives \<open>/home/user/app/\<close>, which starts with the
  base. It is rejected all the same, by the first check of the function.
\<close>

theorem validateSandboxPath_empty_counterexample:
  "\<not> includes_str [] (js ''..'') \<and> \<not> includes_str [] [0] \<and> \<not> startsWith [] (js ''/'')
   \<and> startsWith (DEFAULT_BASE @ js ''/'' @ []) DEFAULT_BASE
   \<and> validateSandboxPath (JString [] :: unit jsval) None \<noteq> Inr (DEFAULT_BASE @ js ''/'' @ [])
   \<and> validateSandboxPath (JString [] :: unit jsval) None = Inl PathRequired"
  by (simp add: validateSandboxPath_def js_def startsWith_def)

text \<open>
  C10. Containment is a prefix test on the string as given. With the default base
  \<open>/home/user/app\<close>, the path \<open>/home/user/appdata\<close> contains neither \<open>..\<close> nor a null
  code unit, is neither the base nor below \<open>/home/user/app/\<close>, and is accepted with itself
  as \<open>normalizedPath\<close>. Every path free of \<open>..\<close> and of null code units that starts with
  \<open>/vercel/sandbox\<close> is accepted unchanged, whatever base is passed.
\<close>

theorem validateSandboxPath_prefix_only:
  "\<not> includes_str (js ''/home/user/appdata'') (js ''..'')
   \<and> 0 \<notin> set (js ''/home/user/appdata'')
   \<and> js ''/home/user/appdata'' \<noteq> DEFAULT_BASE
   \<and> \<not> prefix (DEFAULT_BASE @ js ''/'') (js ''/home/user/appdata'')
   \<and> validateSandboxPath (JString (js ''/home/user/appdata'') :: 'o jsval) None
         = Inr (js ''/home/user/appdata'')
   \<and> (startsWith p VERCEL_SANDBOX \<and> 0 \<notin> set p \<and> (\<forall>u v. p \<noteq> u @ js ''..'' @ v)
        \<longrightarrow> validateSandboxPath (JString p :: 'o jsval) base = Inr p)"
proof -
  have concrete: "\<not> includes_str (js ''/home/user/appdata'') (js ''..'')
   \<and> 0 \<notin> set (js ''/home/user/appdata'')
   \<and> js ''/home/user/appdata'' \<noteq> DEFAULT_BASE
   \<and> \<not> prefix (DEFAULT_BASE @ js ''/'') (js ''/home/user/appdata'')
   \<and> validateSandboxPath (JString (js ''/home/user/appdata'') :: 'o jsval) None
         = Inr (js ''/home/user/appdata'')"
    by (simp add: validateSandboxPath_def js_def startsWith_def DEFAULT_BASE_def)
  have general: "validateSandboxPath (JString p :: 'o jsval) base = Inr p"
    if sw: "startsWith p VERCEL_SANDBOX" and nul: "0 \<notin> set p"
      and dots: "\<forall>u v. p \<noteq> u @ js ''..'' @ v"
  proof -
    from sw have ne: "p \<noteq> []" and slash: "startsWith p (js ''/'')"
      by (auto simp: startsWith_def VERCEL_SANDBOX_def js_def prefix_def)
    from dots have nd: "\<not> includes_str p (js ''..'')" by (simp add: includes_str_iff)
    from nul have nn: "\<not> includes_str p [0]" by (simp add: includes_str_singleton)
    show ?thesis
      using ne slash nd nn sw by (simp add: validateSandboxPath_def)
  qed
  from concrete general show ?thesis by blast
qed

theorem validateSandboxPath_prefix_only_witness:
  "validateSandboxPath (JString (js ''/home/user/appdata'') :: unit jsval) None
         = Inr (js ''/home/user/appdata'')
   \<and> startsWith (js ''/vercel/sandbox-other/x'') VERCEL_SANDBOX
   \<and> validateSandboxPath (JString (js ''/vercel/sandbox-other/x'') :: unit jsval) (Some (js ''/srv''))
         = Inr (js ''/vercel/sandbox-other/x'')"
proof -
  have sw: "startsWith (js ''/vercel/sandbox-other/x'') VERCEL_SANDBOX"
    by (simp add: startsWith_def VERCEL_SANDBOX_def js_def)
  have nul: "0 \<notin> set (js ''/vercel/sandbox-other/x'')"
    by (simp add: js_def)
  have dots: "\<forall>u v. js ''/vercel/sandbox-other/x'' \<noteq> u @ js ''..'' @ v"
    using includes_str_iff [of "js ''/vercel/sandbox-other/x''" "js ''..''"] by (simp add: js_def)
  show ?thesis
    using validateSandboxPath_prefix_only
      [where ?'o = unit, of "js ''/vercel/sandbox-other/x''" "Some (js ''/srv'')"] sw nul dots
    by blast
qed

section \<open>Properties of trim and split\<close>

lemma in_dropWhile: "x \<in> set xs \<Longrightarrow> \<not> P x \<Longrightarrow> x \<in> set (dropWhile P xs)"
  by (induction xs) auto

lemma trim_keeps: "c \<in> set s \<Longrightarrow> \<not> isSpace c \<Longrightarrow> c \<in> set (trim s)"
  by (simp add: trim_def in_dropWhile)

lemma trim_hd: "trim s \<noteq> [] \<Longrightarrow> \<not> isSpace (hd (trim s))"
proof -
  assume ne: "trim s \<noteq> []"
  let ?d = "dropWhile isSpace s"
  let ?e = "dropWhile isSpace (rev ?d)"
  from ne have e: "?e \<noteq> []" by (simp add: trim_def)
  then have d: "?d \<noteq> []" by (auto simp del: dropWhile_eq_Nil_conv)
  then have hd_d: "\<not> isSpace (hd ?d)" by (rule hd_dropWhile)
  have "\<exists>ys. rev ?d = ys @ ?e"
    by (metis takeWhile_dropWhile_id)
  then obtain ys where "rev ?d = ys @ ?e" by blast
  then have "?d = rev ?e @ rev ys" by (metis rev_append rev_rev_ident)
  with e have "hd ?d = hd (rev ?e)" by (metis hd_append2 rev_is_Nil_conv)
  with hd_d show ?thesis by (simp add: trim_def)
qed

lemma trim_last: "trim s \<noteq> [] \<Longrightarrow> \<not> isSpace (last (trim s))"
proof -
  assume ne: "trim s \<noteq> []"
  let ?e = "dropWhile isSpace (rev (dropWhile isSpace s))"
  from ne have e: "?e \<noteq> []" by (simp add: trim_def)
  then have "\<not> isSpace (hd ?e)" by (rule hd_dropWhile)
  with e show ?thesis by (simp add: trim_def last_rev)
qed

lemma words_spec_skip: "words_spec (dropWhile isSpace s) = words_spec s"
  by (subst (1 2) words_spec.simps) simp

lemma words_spec_token:
  assumes "w \<noteq> []" and "\<forall>x\<in>set w. \<not> isSpace x" and "s = [] \<or> isSpace (hd s)"
  shows "words_spec (w @ s) = w # words_spec s"
proof -
  obtain c cs where w: "w = c # cs" using assms(1) by (cases w) auto
  have nc: "\<not> isSpace c" using assms(2) w by simp
  have d: "dropWhile isSpace (w @ s) = w @ s" using w nc by simp
  have t: "takeWhile (\<lambda>x. \<not> isSpace x) (w @ s) = w"
    using assms(2,3) by (cases s) (auto simp: takeWhile_append2 takeWhile_append1)
  have r: "dropWhile (\<lambda>x. \<not> isSpace x) (w @ s) = s"
    using assms(2,3) by (cases s) (auto simp: dropWhile_append2)
  show ?thesis
    using d t r w by (subst words_spec.simps) (simp add: w)
qed

lemma split_ws_words:
  assumes "\<forall>x\<in>set acc. \<not> isSpace x"
    and "s = [] \<or> \<not> isSpace (last s)"
    and "acc \<noteq> [] \<or> (s \<noteq> [] \<and> \<not> isSpace (hd s))"
  shows "split_ws acc s = words_spec (rev acc @ s)"
  using assms
proof (induction acc s rule: split_ws.induct)
  case (1 acc)
  then have "words_spec (rev acc @ []) = rev acc # words_spec []"
    by (intro words_spec_token) auto
  moreover have "words_spec [] = []" by (subst words_spec.simps) simp
  ultimately show ?case by simp
next
  case (2 acc c cs)
  show ?case
  proof (cases "isSpace c")
    case True
    with "2.prems" have acc: "acc \<noteq> []" by auto
    let ?s' = "dropWhile isSpace cs"
    from "2.prems"(2) True have cs: "cs \<noteq> []" and lastcs: "\<not> isSpace (last cs)"
      by (auto split: if_splits)
    have "last cs \<in> set cs" using cs by simp
    then have "last cs \<in> set ?s'" using lastcs by (rule in_dropWhile)
    then have s': "?s' \<noteq> []" by (auto simp del: dropWhile_eq_Nil_conv)
    have "\<exists>ys. cs = ys @ ?s'" by (metis takeWhile_dropWhile_id)
    then have last': "last ?s' = last cs" using s' by (metis last_appendR)
    have hd': "\<not> isSpace (hd ?s')" using s' by (rule hd_dropWhile)
    have ih: "split_ws [] ?s' = words_spec (rev [] @ ?s')"
      using True s' last' lastcs hd' by (intro "2.IH"(1)) auto
    have "words_spec (rev acc @ c # cs) = rev acc # words_spec (c # cs)"
      using acc "2.prems"(1) True by (intro words_spec_token) auto
    moreover have "words_spec (c # cs) = words_spec ?s'"
      using words_spec_skip [of "c # cs"] True by simp
    ultimately show ?thesis using True ih by simp
  next
    case False
    have "split_ws (c # acc) cs = words_spec (rev (c # acc) @ cs)"
      using False "2.prems" by (intro "2.IH"(2)) (auto split: if_splits)
    then show ?thesis using False by simp
  qed
qed

lemma split_trim_words: "trim s \<noteq> [] \<Longrightarrow> split (trim s) = words_spec (trim s)"
  using split_ws_words [of "[]" "trim s"] trim_hd [of s] trim_last [of s]
  by (simp add: split_def)

section \<open>Command validation: the claims\<close>

lemma search_class:
  "search (Seq (Cls items) Eps) i before s \<longleftrightarrow> (\<exists>c\<in>set s. in_class i items c)"
  by (induction s arbitrary: before) (auto simp: step_char_def)

lemma test_class: "test (re [Cls items]) s \<longleftrightarrow> (\<exists>c\<in>set s. in_class False items c)"
  by (simp add: test_def re_def seq_def search_class)

lemma trim_Nil: "trim [] = []"
  by (simp add: trim_def)

lemma validateCommand_string:
  "validateCommand (JString s :: 'o jsval) =
     (if trim s = [] then (if s = [] then Inl CommandRequired else Inl CommandEmpty)
      else if length (trim s) > 2000 then Inl CommandTooLong
      else case find (\<lambda>p. test p (trim s)) BLOCKED_PATTERNS of
             Some p \<Rightarrow> Inl (BlockedPattern p)
           | None \<Rightarrow> (case words_spec (trim s) of
                        [] \<Rightarrow> Inl (CommandNotAllowed (js ''undefined''))
                      | cmd # args \<Rightarrow> if cmd \<in> set ALLOWED_COMMANDS then Inr (cmd, args)
                                      else Inl (CommandNotAllowed cmd)))"
  by (auto simp: validateCommand_def Let_def trim_Nil split_trim_words
           split: option.splits list.splits)

lemma npm_example:
  "validateCommand (JString (js ''npm install react'') :: 'o jsval)
     = Inr (js ''npm'', [js ''install'', js ''react''])"
proof -
  have t: "trim (js ''npm install react'') = js ''npm install react''" by code_simp
  have n: "js ''npm install react'' \<noteq> []" by code_simp
  have l: "\<not> length (js ''npm install react'') > 2000" by code_simp
  have f: "find (\<lambda>p. test p (js ''npm install react'')) BLOCKED_PATTERNS = None" by code_simp
  have w: "words_spec (js ''npm install react'') = [js ''npm'', js ''install'', js ''react'']"
    by code_simp
  have a: "js ''npm'' \<in> set ALLOWED_COMMANDS" by code_simp
  show ?thesis
    unfolding validateCommand_string t using n l f w a by simp
qed

lemma validateCommand_string_iff:
  "validateCommand (JString s :: 'o jsval) = Inr (cmd, args) \<longleftrightarrow>
     trim s \<noteq> [] \<and> length (trim s) \<le> 2000
     \<and> (\<forall>p\<in>set BLOCKED_PATTERNS. \<not> test p (trim s))
     \<and> cmd \<in> set ALLOWED_COMMANDS
     \<and> words_spec (trim s) = cmd # args"
proof (cases "trim s = [] \<or> length (trim s) > 2000")
  case True
  then show ?thesis by (auto simp: validateCommand_string)
next
  case False
  show ?thesis
  proof (cases "find (\<lambda>p. test p (trim s)) BLOCKED_PATTERNS")
    case None
    then have all: "\<forall>p\<in>set BLOCKED_PATTERNS. \<not> test p (trim s)"
      by (simp add: find_None_iff)
    show ?thesis
      using False None all
      by (cases "words_spec (trim s)") (auto simp: validateCommand_string)
  next
    case (Some p)
    then have "\<not> (\<forall>p\<in>set BLOCKED_PATTERNS. \<not> test p (trim s))"
      by (auto simp: find_Some_iff)
    then show ?thesis
      using False Some by (simp add: validateCommand_string)
  qed
qed

text \<open>
  C1. \<open>validateCommand\<close> accepts its input exactly when the input is a string whose trimmed
  form is not empty and not longer than 2000, matches none of the patterns of the deny-list,
  and whose first white-space-delimited token is in the allow-list; it then returns that
  token as the executable and the other tokens, in order, as the arguments. The tokens are
  the maximal runs of characters that are not white space (\<open>words_spec\<close>).
  \<open>validateCommand("npm install react")\<close> is accepted with \<open>npm\<close> and
  \<open>["install", "react"]\<close>.
\<close>

theorem validateCommand_accepts_iff:
  "(validateCommand (v :: 'o jsval) = Inr (cmd, args) \<longleftrightarrow>
      (\<exists>s. v = JString s \<and> trim s \<noteq> [] \<and> length (trim s) \<le> 2000
           \<and> (\<forall>p\<in>set BLOCKED_PATTERNS. \<not> test p (trim s))
           \<and> cmd \<in> set ALLOWED_COMMANDS
           \<and> words_spec (trim s) = cmd # args))
   \<and> validateCommand (JString (js ''npm install react'') :: 'o jsval)
        = Inr (js ''npm'', [js ''install'', js ''react''])"
proof -
  have "validateCommand v = Inr (cmd, args) \<longleftrightarrow>
      (\<exists>s. v = JString s \<and> trim s \<noteq> [] \<and> length (trim s) \<le> 2000
           \<and> (\<forall>p\<in>set BLOCKED_PATTERNS. \<not> test p (trim s))
           \<and> cmd \<in> set ALLOWED_COMMANDS
           \<and> words_spec (trim s) = cmd # args)"
  proof (cases v)
    case (JString x)
    then show ?thesis using validateCommand_string_iff [of x cmd args] by simp
  qed (simp_all add: validateCommand_def)
  with npm_example show ?thesis by blast
qed

theorem validateCommand_accepts_iff_witness:
  "validateCommand (JString (js ''  ls   -la src '') :: unit jsval)
     = Inr (js ''ls'', [js ''-la'', js ''src''])"
proof -
  let ?s = "js ''  ls   -la src ''"
  have t: "trim ?s \<noteq> []" by code_simp
  have l: "length (trim ?s) \<le> 2000" by code_simp
  have "list_all (\<lambda>p. \<not> test p (trim ?s)) BLOCKED_PATTERNS" by code_simp
  then have b: "\<forall>p\<in>set BLOCKED_PATTERNS. \<not> test p (trim ?s)" by (simp add: list_all_iff)
  have a: "js ''ls'' \<in> set ALLOWED_COMMANDS" by code_simp
  have w: "words_spec (trim ?s) = js ''ls'' # [js ''-la'', js ''src'']" by code_simp
  show ?thesis
    using validateCommand_accepts_iff [where ?'o = unit, of "JString ?s" "js ''ls''" "[js ''-la'', js ''src'']"]
      t l b a w by blast
qed

text \<open>
  C2. Every string that contains one of \<open>;\<close>, \<open>|\<close>, \<open>&\<close>, \<open>$\<close> or a backtick is rejected,
  whatever its first token is.
\<close>

theorem validateCommand_metacharacters:
  assumes "c \<in> set s"
    and "c \<in> {ch CHR '';'', ch CHR ''|'', ch CHR ''&'', ch CHR ''$'', 0x60}"
  shows "validateCommand (JString s :: 'o jsval) = Inl CommandTooLong
       \<or> validateCommand (JString s :: 'o jsval) = Inl (BlockedPattern (hd BLOCKED_PATTERNS))"
proof -
  have ns: "\<not> isSpace c" using assms(2) by (auto simp: isSpace_def ch_def)
  have cls: "in_class False [One (ch CHR '';''), One (ch CHR ''&''), One (ch CHR ''|''), One 0x60,
               One (ch CHR ''$'')] c"
    using assms(2) by (auto simp: in_class_def eq_char_def)
  have ct: "c \<in> set (trim s)" using assms(1) ns by (rule trim_keeps)
  then have ne: "trim s \<noteq> []" by auto
  have hit: "test (hd BLOCKED_PATTERNS) (trim s)"
    using ct cls by (auto simp: BLOCKED_PATTERNS_def test_class)
  have "find (\<lambda>p. test p (trim s)) BLOCKED_PATTERNS = Some (hd BLOCKED_PATTERNS)"
    using hit by (simp add: BLOCKED_PATTERNS_def)
  then show ?thesis
    using ne by (simp add: validateCommand_string)
qed

theorem validateCommand_metacharacters_witness:
  "validateCommand (JString (js ''npm install; rm -rf /'') :: unit jsval)
     = Inl (BlockedPattern (hd BLOCKED_PATTERNS))
   \<and> hd (split (js ''npm install; rm -rf /'')) \<in> set ALLOWED_COMMANDS"
proof -
  have a: "ch CHR '';'' \<in> set (js ''npm install; rm -rf /'')" by code_simp
  have b: "ch CHR '';'' \<in> {ch CHR '';'', ch CHR ''|'', ch CHR ''&'', ch CHR ''$'', 0x60}" by simp
  have c: "validateCommand (JString (js ''npm install; rm -rf /'') :: unit jsval) \<noteq> Inl CommandTooLong"
    by code_simp
  have d: "hd (split (js ''npm install; rm -rf /'')) \<in> set ALLOWED_COMMANDS" by code_simp
  show ?thesis
    using validateCommand_metacharacters [OF a b, where ?'o = unit] c d by blast
qed

section \<open>Properties of the matcher\<close>

text \<open>
  The fuel of \<open>r*\<close> is enough: every iteration consumes a character, so any count of
  iterations that is at least the number of characters left gives the same matches.
\<close>

lemma repeat_upto_fuel:
  "length (snd s) \<le> k \<Longrightarrow> length (snd s) \<le> k' \<Longrightarrow> repeat_upto f k s = repeat_upto f k' s"
proof (induction k arbitrary: k' s)
  case 0
  then have "filter (progress s) (f s) = []"
    by (simp add: progress_def filter_empty_conv)
  then show ?case by (cases k') simp_all
next
  case (Suc j)
  show ?case
  proof (cases k')
    case 0
    with Suc.prems have "filter (progress s) (f s) = []"
      by (simp add: progress_def filter_empty_conv)
    with 0 show ?thesis by simp
  next
    case (Suc j')
    have "repeat_upto f j t = repeat_upto f j' t" if "t \<in> set (filter (progress s) (f s))" for t
    proof -
      from that have "length (snd t) < length (snd s)" by (simp add: progress_def)
      with Suc.prems Suc have "length (snd t) \<le> j" "length (snd t) \<le> j'" by simp_all
      then show ?thesis by (rule Suc.IH)
    qed
    then have "map (repeat_upto f j) (filter (progress s) (f s))
             = map (repeat_upto f j') (filter (progress s) (f s))"
      by (rule map_cong [OF refl])
    then show ?thesis unfolding Suc repeat_upto.simps by (rule arg_cong)
  qed
qed

lemma matchR_Star_fuel:
  "length (snd s) \<le> k \<Longrightarrow> matchR (Star a) i s = repeat_upto (matchR a i) k s"
  using repeat_upto_fuel [of s "length (snd s)" k "matchR a i"] by simp

lemma in_step_char:
  "t \<in> set (step_char P (p, r)) \<longleftrightarrow> (\<exists>x r'. r = x # r' \<and> P x \<and> t = (x # p, r'))"
  by (cases r) (auto simp: step_char_def)

lemma matchR_Cls_fun: "matchR (Cls C) i = step_char (in_class i C)"
  by (rule ext) simp

lemma in_repeat_upto_step:
  "t \<in> set (repeat_upto (step_char P) n (p, r)) \<longleftrightarrow>
     (\<exists>w r'. r = w @ r' \<and> length w \<le> n \<and> list_all P w \<and> t = (rev w @ p, r'))"
proof (induction n arbitrary: p r)
  case 0
  then show ?case by auto
next
  case (Suc n)
  show ?case
  proof
    assume "t \<in> set (repeat_upto (step_char P) (Suc n) (p, r))"
    then consider "t = (p, r)"
      | u where "u \<in> set (step_char P (p, r))" "t \<in> set (repeat_upto (step_char P) n u)"
      by auto
    then show "\<exists>w r'. r = w @ r' \<and> length w \<le> Suc n \<and> list_all P w \<and> t = (rev w @ p, r')"
    proof cases
      case 1
      then have "r = [] @ r \<and> length ([]::jsstring) \<le> Suc n \<and> list_all P [] \<and> t = (rev [] @ p, r)"
        by simp
      then show ?thesis by blast
    next
      case 2
      from 2(1) obtain x r1 where u: "r = x # r1" "P x" "u = (x # p, r1)"
        by (auto simp: in_step_char)
      from 2(2) u(3) Suc.IH [of "x # p" r1]
      obtain w r' where w: "r1 = w @ r'" "length w \<le> n" "list_all P w" "t = (rev w @ x # p, r')"
        by auto
      have "r = (x # w) @ r' \<and> length (x # w) \<le> Suc n \<and> list_all P (x # w)
            \<and> t = (rev (x # w) @ p, r')"
        using u w by simp
      then show ?thesis by blast
    qed
  next
    assume "\<exists>w r'. r = w @ r' \<and> length w \<le> Suc n \<and> list_all P w \<and> t = (rev w @ p, r')"
    then obtain w r' where w: "r = w @ r'" "length w \<le> Suc n" "list_all P w" "t = (rev w @ p, r')"
      by blast
    show "t \<in> set (repeat_upto (step_char P) (Suc n) (p, r))"
    proof (cases w)
      case Nil
      with w show ?thesis by simp
    next
      case (Cons x w')
      let ?u = "(x # p, w' @ r')"
      have u: "?u \<in> set (step_char P (p, r))"
        using w Cons by (simp add: in_step_char)
      have pr: "progress (p, r) ?u"
        using w Cons by (simp add: progress_def)
      have "t \<in> set (repeat_upto (step_char P) n ?u)"
        using w Cons Suc.IH [of "x # p" "w' @ r'"] by auto
      with u pr show ?thesis by auto
    qed
  qed
qed

lemma in_star_class:
  "t \<in> set (matchR (Star (Cls C)) i (p, r)) \<longleftrightarrow>
     (\<exists>w r'. r = w @ r' \<and> list_all (in_class i C) w \<and> t = (rev w @ p, r'))"
  by (auto simp: matchR_Cls_fun in_repeat_upto_step)

lemma in_plus_class:
  "t \<in> set (matchR (Plus (Cls C)) i (p, r)) \<longleftrightarrow>
     (\<exists>w r'. r = w @ r' \<and> w \<noteq> [] \<and> list_all (in_class i C) w \<and> t = (rev w @ p, r'))"
proof
  assume "t \<in> set (matchR (Plus (Cls C)) i (p, r))"
  then obtain u where u: "u \<in> set (step_char (in_class i C) (p, r))"
    and t: "t \<in> set (repeat_upto (step_char (in_class i C)) (length (snd u)) u)"
    by (auto simp: matchR_Cls_fun)
  from u obtain x r1 where x: "r = x # r1" "in_class i C x" "u = (x # p, r1)"
    by (auto simp: in_step_char)
  from t x(3) obtain w r' where w: "r1 = w @ r'" "list_all (in_class i C) w" "t = (rev w @ x # p, r')"
    by (auto simp: in_repeat_upto_step)
  have "r = (x # w) @ r' \<and> x # w \<noteq> [] \<and> list_all (in_class i C) (x # w) \<and> t = (rev (x # w) @ p, r')"
    using x w by simp
  then show "\<exists>w r'. r = w @ r' \<and> w \<noteq> [] \<and> list_all (in_class i C) w \<and> t = (rev w @ p, r')"
    by blast
next
  assume "\<exists>w r'. r = w @ r' \<and> w \<noteq> [] \<and> list_all (in_class i C) w \<and> t = (rev w @ p, r')"
  then obtain w r' where w: "r = w @ r'" "w \<noteq> []" "list_all (in_class i C) w" "t = (rev w @ p, r')"
    by blast
  then obtain x w' where c: "w = x # w'" by (cases w) auto
  let ?u = "(x # p, w' @ r')"
  have u: "?u \<in> set (step_char (in_class i C) (p, r))"
    using w c by (simp add: in_step_char)
  have "w' @ r' = w' @ r' \<and> length w' \<le> length (w' @ r') \<and> list_all (in_class i C) w'
        \<and> t = (rev w' @ x # p, r')"
    using w c by simp
  then have "t \<in> set (repeat_upto (step_char (in_class i C)) (length (snd ?u)) ?u)"
    unfolding in_repeat_upto_step snd_conv by blast
  from this u
  have "\<exists>u\<in>set (step_char (in_class i C) (p, r)).
          t \<in> set (repeat_upto (step_char (in_class i C)) (length (snd u)) u)"
    by (rule bexI)
  then show "t \<in> set (matchR (Plus (Cls C)) i (p, r))"
    by (simp add: matchR_Cls_fun)
qed

lemma in_chr:
  "t \<in> set (matchR (Chr c) False (p, r)) \<longleftrightarrow> (\<exists>r'. r = c # r' \<and> t = (c # p, r'))"
  by (auto simp: in_step_char eq_char_def)

lemma in_lit1:
  "t \<in> set (matchR (lit [c]) False (p, r)) \<longleftrightarrow> (\<exists>r'. r = ch c # r' \<and> t = (ch c # p, r'))"
  by (auto simp: lit_def seq_def in_step_char eq_char_def)

lemma in_seq:
  "t \<in> set (matchR (Seq a b) i s) \<longleftrightarrow> (\<exists>u\<in>set (matchR a i s). t \<in> set (matchR b i u))"
  by auto

lemma search_Bol_later: "before \<noteq> [] \<Longrightarrow> \<not> search (Seq Bol K) i before s"
  by (induction s arbitrary: before) auto

lemma test_Bol:
  "test (re (Bol # rs)) s \<longleftrightarrow> matchR (seq rs) False ([], s) \<noteq> []"
  by (cases s) (auto simp: test_def re_def seq_def search_Bol_later)

section \<open>Package names: the claims\<close>

lemma name_first_class: "in_class False name_first c \<longleftrightarrow> is_name_first c"
  by (auto simp: in_class_def name_first_def is_name_first_def isLower_def isDigit_def ch_def
        eq_char_def)

lemma name_rest_class: "in_class False name_rest c \<longleftrightarrow> is_name_rest c"
  by (auto simp: in_class_def name_rest_def is_name_rest_def isLower_def isDigit_def ch_def
        eq_char_def)

lemma version_class: "in_class False version_chars c \<longleftrightarrow> is_version_char c"
  by (auto simp: in_class_def version_chars_def is_version_char_def ch_def eq_char_def)

lemma in_class_fun:
  "in_class False name_first = is_name_first"
  "in_class False name_rest = is_name_rest"
  "in_class False version_chars = is_version_char"
  by (rule ext, rule name_first_class, rule ext, rule name_rest_class, rule ext, rule version_class)

lemma in_segment:
  "t \<in> set (matchR (Seq (Cls name_first) (Seq (Star (Cls name_rest)) K)) False (p, r)) \<longleftrightarrow>
     (\<exists>w r'. r = w @ r' \<and> segment w \<and> t \<in> set (matchR K False (rev w @ p, r')))"
proof
  assume "t \<in> set (matchR (Seq (Cls name_first) (Seq (Star (Cls name_rest)) K)) False (p, r))"
  then obtain u v where u: "u \<in> set (matchR (Cls name_first) False (p, r))"
    and v: "v \<in> set (matchR (Star (Cls name_rest)) False u)"
    and t: "t \<in> set (matchR K False v)"
    unfolding in_seq by blast
  from u have "u \<in> set (step_char is_name_first (p, r))"
    by (simp only: matchR.simps in_class_fun)
  then obtain x r1 where x: "r = x # r1" "is_name_first x" "u = (x # p, r1)"
    unfolding in_step_char by blast
  from v have "v \<in> set (matchR (Star (Cls name_rest)) False (x # p, r1))"
    by (simp only: x(3))
  then obtain w r' where w: "r1 = w @ r'" "list_all is_name_rest w" "v = (rev w @ x # p, r')"
    unfolding in_star_class in_class_fun by blast
  have "r = (x # w) @ r' \<and> segment (x # w) \<and> t \<in> set (matchR K False (rev (x # w) @ p, r'))"
    using x w t by (simp add: segment_def)
  then show "\<exists>w r'. r = w @ r' \<and> segment w \<and> t \<in> set (matchR K False (rev w @ p, r'))"
    by blast
next
  assume "\<exists>w r'. r = w @ r' \<and> segment w \<and> t \<in> set (matchR K False (rev w @ p, r'))"
  then obtain w r' where w: "r = w @ r'" "segment w" "t \<in> set (matchR K False (rev w @ p, r'))"
    by blast
  from w(2) obtain x cs where x: "w = x # cs" "is_name_first x" "list_all is_name_rest cs"
    by (auto simp: segment_def)
  have "(x # p, cs @ r') \<in> set (step_char is_name_first (p, r))"
    unfolding in_step_char using w(1) x by simp
  then have u: "(x # p, cs @ r') \<in> set (matchR (Cls name_first) False (p, r))"
    by (simp only: matchR.simps in_class_fun)
  have "cs @ r' = cs @ r' \<and> list_all is_name_rest cs \<and> (rev cs @ x # p, r') = (rev cs @ x # p, r')"
    using x by simp
  then have v: "(rev cs @ x # p, r') \<in> set (matchR (Star (Cls name_rest)) False (x # p, cs @ r'))"
    unfolding in_star_class in_class_fun by blast
  have t: "t \<in> set (matchR K False (rev cs @ x # p, r'))"
    using w(3) x by simp
  show "t \<in> set (matchR (Seq (Cls name_first) (Seq (Star (Cls name_rest)) K)) False (p, r))"
    unfolding in_seq using u v t by blast
qed

lemma seq_Cons: "seq (a # rs) = Seq a (seq rs)" and seq_Nil: "seq [] = Eps"
  by (simp_all add: seq_def)

lemma in_Eps: "t \<in> set (matchR Eps i s) \<longleftrightarrow> t = s"
  by auto

lemma in_seq_Eps: "t \<in> set (matchR (Seq a Eps) i s) \<longleftrightarrow> t \<in> set (matchR a i s)"
  by simp

lemma nonempty_iff: "xs \<noteq> [] \<longleftrightarrow> (\<exists>x. x \<in> set xs)"
  by (cases xs) auto

lemma in_at_version:
  "u \<in> set (matchR (seq [lit ''@'', Plus (Cls version_chars)]) False (p, r)) \<longleftrightarrow>
     (\<exists>a. a \<in> set (matchR (lit ''@'') False (p, r))
          \<and> u \<in> set (matchR (Plus (Cls version_chars)) False a))"
  unfolding seq_Cons seq_Nil in_seq in_Eps by blast

lemma version_rx:
  "seq [Opt (seq [lit ''@'', Plus (Cls version_chars)]), Eol]
     = Seq (Opt (seq [lit ''@'', Plus (Cls version_chars)])) (Seq Eol Eps)"
  by (simp only: seq_Cons seq_Nil)

lemma in_tail:
  "(\<exists>t. t \<in> set (matchR (seq [Opt (seq [lit ''@'', Plus (Cls version_chars)]), Eol]) False (p, r))) \<longleftrightarrow> version_part r"
proof
  assume "\<exists>t. t \<in> set (matchR (seq [Opt (seq [lit ''@'', Plus (Cls version_chars)]), Eol]) False (p, r))"
  then obtain t u where u: "u \<in> set (matchR (Opt (seq [lit ''@'', Plus (Cls version_chars)])) False (p, r))"
    and t: "t \<in> set (matchR (Seq Eol Eps) False u)"
    unfolding version_rx in_seq by blast
  from t have e: "snd u = []" by (auto split: if_splits)
  from u consider "u = (p, r)"
    | "u \<in> set (matchR (seq [lit ''@'', Plus (Cls version_chars)]) False (p, r))"
    by auto
  then show "version_part r"
  proof cases
    case 1
    with e show ?thesis by (simp add: version_part_def)
  next
    case 2
    then obtain a b where a: "a \<in> set (matchR (lit ''@'') False (p, r))"
      and b: "b \<in> set (matchR (Plus (Cls version_chars)) False a)"
      and ub: "u = b"
      unfolding in_at_version by blast
    from a obtain r1 where r1: "r = ch CHR ''@'' # r1" "a = (ch CHR ''@'' # p, r1)"
      unfolding in_lit1 by blast
    from b have "b \<in> set (matchR (Plus (Cls version_chars)) False (ch CHR ''@'' # p, r1))"
      by (simp only: r1(2))
    then obtain w r' where w: "r1 = w @ r'" "w \<noteq> []" "list_all is_version_char w"
      "b = (rev w @ ch CHR ''@'' # p, r')"
      unfolding in_plus_class in_class_fun by blast
    from e ub w have "r' = []" by simp
    with r1 w show ?thesis by (auto simp: version_part_def)
  qed
next
  assume "version_part r"
  then consider "r = []"
    | v where "v \<noteq> []" "list_all is_version_char v" "r = ch CHR ''@'' # v"
    by (auto simp: version_part_def)
  then show "\<exists>t. t \<in> set (matchR (seq [Opt (seq [lit ''@'', Plus (Cls version_chars)]), Eol]) False (p, r))"
  proof cases
    case 1
    have "(p, r) \<in> set (matchR (Opt (seq [lit ''@'', Plus (Cls version_chars)])) False (p, r))"
      by simp
    moreover have "(p, r) \<in> set (matchR (Seq Eol Eps) False (p, r))"
      using 1 by simp
    ultimately have "(p, r) \<in> set (matchR (seq [Opt (seq [lit ''@'', Plus (Cls version_chars)]), Eol]) False (p, r))"
      unfolding version_rx in_seq by blast
    then show ?thesis by blast
  next
    case 2
    let ?a = "(ch CHR ''@'' # p, v)"
    let ?b = "(rev v @ ch CHR ''@'' # p, [])"
    have a: "?a \<in> set (matchR (lit ''@'') False (p, r))"
      using 2 unfolding in_lit1 by simp
    have "v = v @ [] \<and> v \<noteq> [] \<and> list_all is_version_char v \<and> ?b = (rev v @ ch CHR ''@'' # p, [])"
      using 2 by simp
    then have b: "?b \<in> set (matchR (Plus (Cls version_chars)) False ?a)"
      unfolding in_plus_class in_class_fun by blast
    have "?b \<in> set (matchR (seq [lit ''@'', Plus (Cls version_chars)]) False (p, r))"
      unfolding in_at_version using a b by blast
    then have "?b \<in> set (matchR (Opt (seq [lit ''@'', Plus (Cls version_chars)])) False (p, r))"
      by simp
    moreover have "?b \<in> set (matchR (Seq Eol Eps) False ?b)" by simp
    ultimately have "?b \<in> set (matchR (seq [Opt (seq [lit ''@'', Plus (Cls version_chars)]), Eol]) False (p, r))"
      unfolding version_rx in_seq by blast
    then show ?thesis by blast
  qed
qed

lemma in_scope:
  "u \<in> set (matchR (seq [lit ''@'', Cls name_first, Star (Cls name_rest), lit ''/'']) False (p, r))
     \<longleftrightarrow> (\<exists>sc r'. r = ch CHR ''@'' # sc @ ch CHR ''/'' # r' \<and> segment sc
                  \<and> u = (ch CHR ''/'' # rev sc @ ch CHR ''@'' # p, r'))"
proof -
  have unf: "seq [lit ''@'', Cls name_first, Star (Cls name_rest), lit ''/'']
      = Seq (lit ''@'') (Seq (Cls name_first) (Seq (Star (Cls name_rest)) (Seq (lit ''/'') Eps)))"
    by (simp only: seq_Cons seq_Nil)
  have slash: "t \<in> set (matchR (Seq (lit ''/'') Eps) False (q, x)) \<longleftrightarrow>
      (\<exists>r'. x = ch CHR ''/'' # r' \<and> t = (ch CHR ''/'' # q, r'))" for t q x
    unfolding in_seq_Eps in_lit1 ..
  show ?thesis
  proof
    assume "u \<in> set (matchR (seq [lit ''@'', Cls name_first, Star (Cls name_rest), lit ''/''])
      False (p, r))"
    then obtain a where a: "a \<in> set (matchR (lit ''@'') False (p, r))"
      and u: "u \<in> set (matchR (Seq (Cls name_first) (Seq (Star (Cls name_rest))
                 (Seq (lit ''/'') Eps))) False a)"
      unfolding unf in_seq [of u "lit ''@''"] by blast
    from a obtain r1 where r1: "r = ch CHR ''@'' # r1" "a = (ch CHR ''@'' # p, r1)"
      unfolding in_lit1 by blast
    from u have "u \<in> set (matchR (Seq (Cls name_first) (Seq (Star (Cls name_rest))
                 (Seq (lit ''/'') Eps))) False (ch CHR ''@'' # p, r1))"
      by (simp only: r1(2))
    then obtain w r2 where w: "r1 = w @ r2" "segment w"
      "u \<in> set (matchR (Seq (lit ''/'') Eps) False (rev w @ ch CHR ''@'' # p, r2))"
      unfolding in_segment by blast
    from w(3) obtain r' where r': "r2 = ch CHR ''/'' # r'" "u = (ch CHR ''/'' # rev w @ ch CHR ''@'' # p, r')"
      unfolding slash by blast
    have "r = ch CHR ''@'' # w @ ch CHR ''/'' # r' \<and> segment w
          \<and> u = (ch CHR ''/'' # rev w @ ch CHR ''@'' # p, r')"
      using r1 w r' by simp
    then show "\<exists>sc r'. r = ch CHR ''@'' # sc @ ch CHR ''/'' # r' \<and> segment sc
                  \<and> u = (ch CHR ''/'' # rev sc @ ch CHR ''@'' # p, r')"
      by blast
  next
    assume "\<exists>sc r'. r = ch CHR ''@'' # sc @ ch CHR ''/'' # r' \<and> segment sc
                  \<and> u = (ch CHR ''/'' # rev sc @ ch CHR ''@'' # p, r')"
    then obtain sc r' where s: "r = ch CHR ''@'' # sc @ ch CHR ''/'' # r'" "segment sc"
      "u = (ch CHR ''/'' # rev sc @ ch CHR ''@'' # p, r')"
      by blast
    let ?a = "(ch CHR ''@'' # p, sc @ ch CHR ''/'' # r')"
    have a: "?a \<in> set (matchR (lit ''@'') False (p, r))"
      unfolding in_lit1 using s(1) by simp
    have "u \<in> set (matchR (Seq (lit ''/'') Eps) False (rev sc @ ch CHR ''@'' # p, ch CHR ''/'' # r'))"
      unfolding slash using s(3) by simp
    with s(2)
    have "\<exists>w r2. sc @ ch CHR ''/'' # r' = w @ r2 \<and> segment w
            \<and> u \<in> set (matchR (Seq (lit ''/'') Eps) False (rev w @ ch CHR ''@'' # p, r2))"
      by blast
    then have "u \<in> set (matchR (Seq (Cls name_first) (Seq (Star (Cls name_rest))
                 (Seq (lit ''/'') Eps))) False ?a)"
      unfolding in_segment .
    with a show "u \<in> set (matchR (seq [lit ''@'', Cls name_first, Star (Cls name_rest), lit ''/''])
      False (p, r))"
      unfolding unf in_seq [of u "lit ''@''"] by blast
  qed
qed

lemma in_name_version:
  "(\<exists>t. t \<in> set (matchR (seq [Cls name_first, Star (Cls name_rest),
                              Opt (seq [lit ''@'', Plus (Cls version_chars)]), Eol]) False (p, r)))
     \<longleftrightarrow> (\<exists>nm ver. r = nm @ ver \<and> segment nm \<and> version_part ver)"
proof -
  have unf: "seq [Cls name_first, Star (Cls name_rest),
                  Opt (seq [lit ''@'', Plus (Cls version_chars)]), Eol]
      = Seq (Cls name_first) (Seq (Star (Cls name_rest))
          (seq [Opt (seq [lit ''@'', Plus (Cls version_chars)]), Eol]))"
    by (simp only: seq_Cons)
  have "(\<exists>t. t \<in> set (matchR (seq [Cls name_first, Star (Cls name_rest),
                              Opt (seq [lit ''@'', Plus (Cls version_chars)]), Eol]) False (p, r)))
     \<longleftrightarrow> (\<exists>w r'. r = w @ r' \<and> segment w
            \<and> (\<exists>t. t \<in> set (matchR (seq [Opt (seq [lit ''@'', Plus (Cls version_chars)]), Eol])
                 False (rev w @ p, r'))))"
    unfolding unf in_segment by blast
  then show ?thesis unfolding in_tail .
qed

lemma test_package_pattern: "test VALID_PACKAGE_PATTERN t \<longleftrightarrow> package_grammar t"
proof -
  let ?A = "seq [lit ''@'', Cls name_first, Star (Cls name_rest), lit ''/'']"
  let ?NV = "seq [Cls name_first, Star (Cls name_rest),
                  Opt (seq [lit ''@'', Plus (Cls version_chars)]), Eol]"
  have unf: "seq [Opt ?A, Cls name_first, Star (Cls name_rest),
                  Opt (seq [lit ''@'', Plus (Cls version_chars)]), Eol] = Seq (Opt ?A) ?NV"
    by (simp only: seq_Cons)
  have opt: "u \<in> set (matchR (Opt ?A) False ([], t)) \<longleftrightarrow>
               u = ([], t) \<or> u \<in> set (matchR ?A False ([], t))" for u
    by auto
  have "test VALID_PACKAGE_PATTERN t \<longleftrightarrow> (\<exists>x. x \<in> set (matchR (Seq (Opt ?A) ?NV) False ([], t)))"
    unfolding VALID_PACKAGE_PATTERN_def test_Bol unf nonempty_iff ..
  also have "\<dots> \<longleftrightarrow> (\<exists>u. u \<in> set (matchR (Opt ?A) False ([], t))
                          \<and> (\<exists>x. x \<in> set (matchR ?NV False u)))"
    unfolding in_seq by blast
  also have "\<dots> \<longleftrightarrow> (\<exists>x. x \<in> set (matchR ?NV False ([], t)))
                   \<or> (\<exists>sc r'. t = ch CHR ''@'' # sc @ ch CHR ''/'' # r' \<and> segment sc
                        \<and> (\<exists>x. x \<in> set (matchR ?NV False (ch CHR ''/'' # rev sc @ [ch CHR ''@''], r'))))"
    unfolding opt in_scope by blast
  also have "\<dots> \<longleftrightarrow> (\<exists>nm ver. t = nm @ ver \<and> segment nm \<and> version_part ver)
                   \<or> (\<exists>sc r'. t = ch CHR ''@'' # sc @ ch CHR ''/'' # r' \<and> segment sc
                        \<and> (\<exists>nm ver. r' = nm @ ver \<and> segment nm \<and> version_part ver))"
    unfolding in_name_version ..
  also have "\<dots> \<longleftrightarrow> package_grammar t"
  proof
    assume "(\<exists>nm ver. t = nm @ ver \<and> segment nm \<and> version_part ver)
                   \<or> (\<exists>sc r'. t = ch CHR ''@'' # sc @ ch CHR ''/'' # r' \<and> segment sc
                        \<and> (\<exists>nm ver. r' = nm @ ver \<and> segment nm \<and> version_part ver))"
    then consider nm ver where "t = nm @ ver" "segment nm" "version_part ver"
      | sc nm ver where "t = ch CHR ''@'' # sc @ ch CHR ''/'' # nm @ ver" "segment sc"
          "segment nm" "version_part ver"
      by blast
    then show "package_grammar t"
    proof cases
      case 1
      then have "t = [] @ nm @ ver \<and> scope_part [] \<and> segment nm \<and> version_part ver"
        by (simp add: scope_part_def)
      then show ?thesis unfolding package_grammar_def by blast
    next
      case 2
      then have "t = (ch CHR ''@'' # sc @ [ch CHR ''/'']) @ nm @ ver
                 \<and> scope_part (ch CHR ''@'' # sc @ [ch CHR ''/'']) \<and> segment nm \<and> version_part ver"
        by (auto simp: scope_part_def)
      then show ?thesis unfolding package_grammar_def by blast
    qed
  next
    assume "package_grammar t"
    then obtain sc nm ver where g: "t = sc @ nm @ ver" "scope_part sc" "segment nm" "version_part ver"
      unfolding package_grammar_def by blast
    from g(2) consider "sc = []" | w where "segment w" "sc = ch CHR ''@'' # w @ [ch CHR ''/'']"
      unfolding scope_part_def by blast
    then show "(\<exists>nm ver. t = nm @ ver \<and> segment nm \<and> version_part ver)
                   \<or> (\<exists>sc r'. t = ch CHR ''@'' # sc @ ch CHR ''/'' # r' \<and> segment sc
                        \<and> (\<exists>nm ver. r' = nm @ ver \<and> segment nm \<and> version_part ver))"
    proof cases
      case 1
      with g show ?thesis by auto
    next
      case 2
      with g have "t = ch CHR ''@'' # w @ ch CHR ''/'' # (nm @ ver) \<and> segment w
                    \<and> (nm @ ver = nm @ ver \<and> segment nm \<and> version_part ver)"
        by simp
      then show ?thesis by blast
    qed
  qed
  finally show ?thesis .
qed

lemma validatePackageName_string:
  "validatePackageName (JString n :: 'o jsval) \<longleftrightarrow>
     trim n \<noteq> [] \<and> length (trim n) \<le> 214 \<and> package_grammar (trim n)"
  by (auto simp: validatePackageName_def Let_def test_package_pattern trim_def)

lemma validatePackageName_test:
  "validatePackageName (JString n :: 'o jsval) \<longleftrightarrow>
     n \<noteq> [] \<and> trim n \<noteq> [] \<and> length (trim n) \<le> 214 \<and> test VALID_PACKAGE_PATTERN (trim n)"
  by (auto simp: validatePackageName_def Let_def)

text \<open>
  C8. \<open>validatePackageName\<close> accepts exactly the strings whose trimmed form is not empty,
  has at most 214 characters and is an optional scope \<open>@segment/\<close>, a name segment and an
  optional version \<open>@...\<close>, where a segment starts with a lower-case letter, a digit,
  \<open>-\<close> or \<open>~\<close> and goes on with these, \<open>.\<close> and \<open>_\<close>, and the version is a non-empty
  run of word characters, \<open>.\<close>, \<open>-\<close> and \<open>^ ~ > = < |\<close>. It accepts \<open>react\<close>,
  \<open>@types/react\<close> and \<open>react@^18.0.0\<close>, and rejects the empty string, \<open>UPPERCASE\<close>,
  \<open>../../../etc/passwd\<close> and every value that is not a string.
\<close>

theorem validatePackageName_grammar:
  "(validatePackageName (v :: 'o jsval) \<longleftrightarrow>
      (\<exists>n. v = JString n \<and> trim n \<noteq> [] \<and> length (trim n) \<le> 214 \<and> package_grammar (trim n)))
   \<and> validatePackageName (JString (js ''react'') :: 'o jsval)
   \<and> validatePackageName (JString (js ''@types/react'') :: 'o jsval)
   \<and> validatePackageName (JString (js ''react@^18.0.0'') :: 'o jsval)
   \<and> \<not> validatePackageName (JString (js '''') :: 'o jsval)
   \<and> \<not> validatePackageName (JString (js ''UPPERCASE'') :: 'o jsval)
   \<and> \<not> validatePackageName (JString (js ''../../../etc/passwd'') :: 'o jsval)"
proof -
  have iff: "validatePackageName v \<longleftrightarrow>
      (\<exists>n. v = JString n \<and> trim n \<noteq> [] \<and> length (trim n) \<le> 214 \<and> package_grammar (trim n))"
  proof (cases v)
    case (JString x)
    then show ?thesis using validatePackageName_string [of x] by simp
  qed (simp_all add: validatePackageName_def)
  have ex: "validatePackageName (JString (js ''react'') :: 'o jsval)"
    "validatePackageName (JString (js ''@types/react'') :: 'o jsval)"
    "validatePackageName (JString (js ''react@^18.0.0'') :: 'o jsval)"
    "\<not> validatePackageName (JString (js '''') :: 'o jsval)"
    "\<not> validatePackageName (JString (js ''UPPERCASE'') :: 'o jsval)"
    "\<not> validatePackageName (JString (js ''../../../etc/passwd'') :: 'o jsval)"
    unfolding validatePackageName_test by code_simp+
  from iff ex show ?thesis by blast
qed

theorem validatePackageName_grammar_witness:
  "validatePackageName (JString (js '' @radix-ui/react-dialog@1.0.5-rc.1 '') :: unit jsval)"
proof -
  let ?t = "js ''@radix-ui/react-dialog@1.0.5-rc.1''"
  have t: "trim (js '' @radix-ui/react-dialog@1.0.5-rc.1 '') = ?t" by code_simp
  have n: "?t \<noteq> []" and l: "length ?t \<le> 214" by code_simp+
  have sc: "segment (js ''radix-ui'')" and nm: "segment (js ''react-dialog'')"
    unfolding segment_def js_def list.map
    by (rule exI, rule exI, rule conjI, rule refl, code_simp)+
  have "js ''1.0.5-rc.1'' \<noteq> [] \<and> list_all is_version_char (js ''1.0.5-rc.1'')
        \<and> js ''@1.0.5-rc.1'' = ch CHR ''@'' # js ''1.0.5-rc.1''"
    by code_simp
  then have ver: "version_part (js ''@1.0.5-rc.1'')"
    unfolding version_part_def by blast
  have "js ''@radix-ui/'' = ch CHR ''@'' # js ''radix-ui'' @ [ch CHR ''/'']" by code_simp
  with sc have scp: "scope_part (js ''@radix-ui/'')"
    unfolding scope_part_def by blast
  have "?t = js ''@radix-ui/'' @ js ''react-dialog'' @ js ''@1.0.5-rc.1''" by code_simp
  with scp nm ver have g: "package_grammar ?t"
    unfolding package_grammar_def by blast
  show ?thesis
    using validatePackageName_grammar [where ?'o = unit, of "JString (js '' @radix-ui/react-dialog@1.0.5-rc.1 '')"]
      t n l g by simp
qed

lemma no_at_split:
  assumes "t = nm @ c # v" and "c \<notin> set nm"
  shows "nm = takeWhile (\<lambda>x. x \<noteq> c) t" and "v = tl (dropWhile (\<lambda>x. x \<noteq> c) t)"
proof -
  have "takeWhile (\<lambda>x. x \<noteq> c) (nm @ c # v) = nm"
    using assms(2) by (induction nm) auto
  then show "nm = takeWhile (\<lambda>x. x \<noteq> c) t" using assms(1) by simp
  have "dropWhile (\<lambda>x. x \<noteq> c) (nm @ c # v) = c # v"
    using assms(2) by (induction nm) auto
  then show "v = tl (dropWhile (\<lambda>x. x \<noteq> c) t)" using assms(1) by simp
qed

text \<open>
  The grammar as the specification words it differs from the pattern both ways: \<open>_x\<close> is
  made of the characters it lists and is rejected, and \<open>react@latest\<close> is accepted although
  its version has letters.
\<close>

theorem validatePackageName_grammar_counterexample:
  "claimed_package_name (js ''_x'')
   \<and> \<not> validatePackageName (JString (js ''_x'') :: unit jsval)
   \<and> validatePackageName (JString (js ''react@latest'') :: unit jsval)
   \<and> \<not> claimed_package_name (js ''react@latest'')"
proof -
  have "js ''_x'' = [] @ js ''_x'' @ [] \<and> js ''_x'' \<noteq> [] \<and> list_all is_name_rest (js ''_x'')"
    by code_simp
  moreover have "length (js ''_x'') \<le> 214" by code_simp
  ultimately have a: "claimed_package_name (js ''_x'')"
    unfolding claimed_package_name_def by blast
  have b: "\<not> validatePackageName (JString (js ''_x'') :: unit jsval)" by code_simp
  have c: "validatePackageName (JString (js ''react@latest'') :: unit jsval)" by code_simp
  have d: "\<not> claimed_package_name (js ''react@latest'')"
  proof
    let ?t = "js ''react@latest''"
    assume "claimed_package_name ?t"
    then obtain sc nm ver where t: "?t = sc @ nm @ ver"
      and sc: "sc = [] \<or> (\<exists>w. w \<noteq> [] \<and> list_all is_name_rest w \<and> sc = ch CHR ''@'' # w @ [ch CHR ''/''])"
      and nm: "nm \<noteq> []" "list_all is_name_rest nm"
      and ver: "ver = [] \<or> (\<exists>v. v \<noteq> [] \<and> list_all claimed_version_char v \<and> ver = ch CHR ''@'' # v)"
      unfolding claimed_package_name_def by blast
    have hd: "hd ?t \<noteq> ch CHR ''@''" by code_simp
    have sc0: "sc = []"
    proof (rule ccontr)
      assume "sc \<noteq> []"
      with sc obtain w where "sc = ch CHR ''@'' # w @ [ch CHR ''/'']" by blast
      with t have "hd ?t = ch CHR ''@''" by simp
      with hd show False by simp
    qed
    have "\<not> is_name_rest (ch CHR ''@'')" by code_simp
    with nm(2) have noat: "ch CHR ''@'' \<notin> set nm" by (auto simp: list_all_iff)
    have at: "ch CHR ''@'' \<in> set ?t" by code_simp
    from ver show False
    proof
      assume "ver = []"
      with t sc0 have "?t = nm" by simp
      with at noat show False by simp
    next
      assume "\<exists>v. v \<noteq> [] \<and> list_all claimed_version_char v \<and> ver = ch CHR ''@'' # v"
      then obtain v where v: "list_all claimed_version_char v" "ver = ch CHR ''@'' # v" by blast
      with t sc0 have "?t = nm @ ch CHR ''@'' # v" by simp
      from no_at_split(2) [OF this noat] have "v = tl (dropWhile (\<lambda>x. x \<noteq> ch CHR ''@'') ?t)" .
      also have "\<dots> = js ''latest''" by code_simp
      finally have "v = js ''latest''" .
      moreover have "\<not> list_all claimed_version_char (js ''latest'')" by code_simp
      ultimately show False using v(1) by simp
    qed
  qed
  from a b c d show ?thesis by blast
qed

section \<open>URL validation: the claims\<close>

lemma validateUrl_accepts_iff:
  "validateUrl newURL toLowerCase input = Inr url \<longleftrightarrow>
     newURL input = Some url
     \<and> (protocol url = js ''http:'' \<or> protocol url = js ''https:'')
     \<and> toLowerCase (hostname url) \<notin> set BLOCKED_HOSTNAMES
     \<and> \<not> list_ex (\<lambda>p. test p (toLowerCase (hostname url))) BLOCKED_HOSTNAME_PATTERNS"
  by (cases "newURL input") (auto simp: validateUrl_def Let_def)

lemma validateUrl_protocol:
  "newURL input = Some url \<Longrightarrow> protocol url \<noteq> js ''http:'' \<Longrightarrow> protocol url \<noteq> js ''https:''
     \<Longrightarrow> validateUrl newURL toLowerCase input = Inl (InvalidProtocol (protocol url))"
  by (simp add: validateUrl_def)

lemma private_ipv4_blocked:
  "list_all (\<lambda>h. list_ex (\<lambda>p. test p h) BLOCKED_HOSTNAME_PATTERNS)
     [js ''10.0.0.1'', js ''172.16.0.1'', js ''172.31.255.255'', js ''192.168.1.1'']"
  by code_simp

lemma ipv6_hosts_pass:
  "list_all (\<lambda>h. h \<notin> set BLOCKED_HOSTNAMES \<and> \<not> list_ex (\<lambda>p. test p h) BLOCKED_HOSTNAME_PATTERNS)
     [js ''[fd00::1]'', js ''fd00::1'', js ''[fc00::1]'', js ''[fe80::1]'']"
  by code_simp

text \<open>
  The three IPv4 patterns do what the specification says of them: every private IPv4 host
  in dotted form is rejected. So are \<open>ftp:\<close> and \<open>javascript:\<close> URLs, for their
  protocol, and \<open>https://example.com\<close> is accepted, where the parser gives these parts.
\<close>

lemma matches_seq:
  "u \<in> set (matchR a i s) \<Longrightarrow> t \<in> set (matchR (seq rs) i u) \<Longrightarrow> t \<in> set (matchR (seq (a # rs)) i s)"
  unfolding seq_Cons in_seq by blast

lemma matches_lit:
  "(rev (map ch s) @ p, r) \<in> set (matchR (lit s) False (p, map ch s @ r))"
proof (induction s arbitrary: p)
  case Nil
  then show ?case by (simp add: lit_def seq_def)
next
  case (Cons c s)
  have "(ch c # p, map ch s @ r) \<in> set (matchR (Chr (ch c)) False (p, map ch (c # s) @ r))"
    by (simp add: in_step_char eq_char_def)
  moreover have "(rev (map ch (c # s)) @ p, r)
      \<in> set (matchR (seq (map (\<lambda>c. Chr (ch c)) s)) False (ch c # p, map ch s @ r))"
    using Cons.IH [of "ch c # p"] by (simp add: lit_def)
  ultimately show ?case
    unfolding lit_def list.map by (rule matches_seq)
qed

lemma matches_exact:
  "list_all P w \<Longrightarrow> (rev w @ p, r) \<in> set (repeat_exact (step_char P) (length w) (p, w @ r))"
proof (induction w arbitrary: p)
  case Nil
  then show ?case by simp
next
  case (Cons x w)
  then have "(x # p, w @ r) \<in> set (step_char P (p, (x # w) @ r))"
    by (simp add: in_step_char)
  moreover have "(rev (x # w) @ p, r) \<in> set (repeat_exact (step_char P) (length w) (x # p, w @ r))"
    using Cons.IH [of "x # p"] Cons.prems by simp
  ultimately show ?case by auto
qed

lemma matches_digits:
  assumes "digit_group w"
  shows "(rev w @ p, r) \<in> set (matchR digits_1_3 i (p, w @ r))"
proof -
  from assms obtain x w' where w: "w = x # w'" "isDigit x" "list_all isDigit w'" "length w' \<le> 2"
    by (cases w) (auto simp: digit_group_def)
  have cls: "in_class i [DigitClass] = isDigit"
    by (rule ext) (simp add: in_class_def)
  have one: "(x # p, w' @ r) \<in> set (repeat_exact (step_char isDigit) 1 (p, w @ r))"
    using matches_exact [of isDigit "[x]" p "w' @ r"] w by simp
  have "w' @ r = w' @ r \<and> length w' \<le> 3 - 1 \<and> list_all isDigit w'
        \<and> (rev w @ p, r) = (rev w' @ x # p, r)"
    using w by simp
  then have more: "(rev w @ p, r) \<in> set (repeat_upto (step_char isDigit) (3 - 1) (x # p, w' @ r))"
    unfolding in_repeat_upto_step by blast
  show ?thesis
    unfolding digits_1_3_def matchR.simps matchR_Cls_fun cls using one more by auto
qed

lemma matches_Eol: "(p, []) \<in> set (matchR (seq [Eol]) i (p, []))"
  by (simp add: seq_def)

lemma js_map_ch: "js s = map ch s"
  by (simp add: js_def ch_def)

lemma test_from_match: "t \<in> set (matchR (seq rs) False ([], s)) \<Longrightarrow> test (re (Bol # rs)) s"
  unfolding test_Bol by auto

lemma matches_tail1:
  assumes "digit_group c"
  shows "(rev c @ rev (js ''.'') @ p, [])
     \<in> set (matchR (seq [lit ''.'', digits_1_3, Eol]) False (p, js ''.'' @ c))"
proof -
  let ?q = "rev (js ''.'') @ p"
  have 3: "(rev c @ ?q, []) \<in> set (matchR (seq [Eol]) False (rev c @ ?q, []))"
    by (rule matches_Eol)
  have 2: "(rev c @ ?q, []) \<in> set (matchR (seq [digits_1_3, Eol]) False (?q, c))"
    using matches_digits [OF assms, of ?q "[]" False] 3 by (auto intro: matches_seq)
  show ?thesis
    using matches_lit [of "''.''" p c] 2 unfolding js_map_ch by (rule matches_seq)
qed

lemma matches_tail2:
  assumes "digit_group b" and "digit_group c"
  shows "(rev c @ rev (js ''.'') @ rev b @ rev (js ''.'') @ p, [])
     \<in> set (matchR (seq [lit ''.'', digits_1_3, lit ''.'', digits_1_3, Eol]) False
          (p, js ''.'' @ b @ js ''.'' @ c))"
proof -
  let ?q = "rev (js ''.'') @ p"
  have 2: "(rev c @ rev (js ''.'') @ rev b @ ?q, [])
      \<in> set (matchR (seq [digits_1_3, lit ''.'', digits_1_3, Eol]) False (?q, b @ js ''.'' @ c))"
    using matches_digits [OF assms(1), of ?q "js ''.'' @ c" False]
      matches_tail1 [OF assms(2), of "rev b @ ?q"]
    by (rule matches_seq)
  show ?thesis
    using matches_lit [of "''.''" p "b @ js ''.'' @ c"] 2 unfolding js_map_ch by (rule matches_seq)
qed

lemma private_10_matches:
  assumes "digit_group a" and "digit_group b" and "digit_group c"
  shows "test (BLOCKED_HOSTNAME_PATTERNS ! 0) (js ''10.'' @ a @ js ''.'' @ b @ js ''.'' @ c)"
proof -
  let ?p1 = "rev (js ''10.'')"
  let ?t = "(rev c @ rev (js ''.'') @ rev b @ rev (js ''.'') @ rev a @ ?p1, [])"
  have 2: "?t \<in> set (matchR (seq [digits_1_3, lit ''.'', digits_1_3, lit ''.'', digits_1_3, Eol])
              False (?p1, a @ js ''.'' @ b @ js ''.'' @ c))"
    using matches_digits [OF assms(1), of ?p1 "js ''.'' @ b @ js ''.'' @ c" False]
      matches_tail2 [OF assms(2,3), of "rev a @ ?p1"]
    by (rule matches_seq)
  have 1: "?t \<in> set (matchR (seq [lit ''10.'', digits_1_3, lit ''.'', digits_1_3, lit ''.'',
              digits_1_3, Eol]) False ([], js ''10.'' @ a @ js ''.'' @ b @ js ''.'' @ c))"
    using matches_lit [of "''10.''" "[]" "a @ js ''.'' @ b @ js ''.'' @ c"] 2
    unfolding js_map_ch append_Nil2 by (rule matches_seq)
  have "BLOCKED_HOSTNAME_PATTERNS ! 0
      = re [Bol, lit ''10.'', digits_1_3, lit ''.'', digits_1_3, lit ''.'', digits_1_3, Eol]"
    by (simp add: BLOCKED_HOSTNAME_PATTERNS_def)
  then show ?thesis using 1 by (simp only: test_from_match)
qed

lemma private_192_matches:
  assumes "digit_group b" and "digit_group c"
  shows "test (BLOCKED_HOSTNAME_PATTERNS ! 2) (js ''192.168.'' @ b @ js ''.'' @ c)"
proof -
  let ?p1 = "rev (js ''192.168.'')"
  let ?t = "(rev c @ rev (js ''.'') @ rev b @ ?p1, [])"
  have 2: "?t \<in> set (matchR (seq [digits_1_3, lit ''.'', digits_1_3, Eol])
              False (?p1, b @ js ''.'' @ c))"
    using matches_digits [OF assms(1), of ?p1 "js ''.'' @ c" False]
      matches_tail1 [OF assms(2), of "rev b @ ?p1"]
    by (rule matches_seq)
  have 1: "?t \<in> set (matchR (seq [lit ''192.168.'', digits_1_3, lit ''.'', digits_1_3, Eol])
              False ([], js ''192.168.'' @ b @ js ''.'' @ c))"
    using matches_lit [of "''192.168.''" "[]" "b @ js ''.'' @ c"] 2
    unfolding js_map_ch append_Nil2 by (rule matches_seq)
  have "BLOCKED_HOSTNAME_PATTERNS ! 2
      = re [Bol, lit ''192.168.'', digits_1_3, lit ''.'', digits_1_3, Eol]"
    by (simp add: BLOCKED_HOSTNAME_PATTERNS_def)
  then show ?thesis using 1 by (simp only: test_from_match)
qed

lemma matches_second:
  assumes "second_172 s"
  shows "(rev s @ p, r) \<in> set (matchR octet_16_31 False (p, s @ r))"
proof -
  from assms consider d where "s = [ch CHR ''1'', d]" "ch CHR ''6'' \<le> d" "d \<le> ch CHR ''9''"
    | d where "s = [ch CHR ''2'', d]" "isDigit d"
    | "s = js ''30''" | "s = js ''31''"
    unfolding second_172_def by blast
  then show ?thesis
    by cases
      (simp_all add: octet_16_31_def seq_def lit_def step_char_def eq_char_def in_class_def
         js_def ch_def)
qed

lemma private_172_matches:
  assumes "second_172 s" and "digit_group b" and "digit_group c"
  shows "test (BLOCKED_HOSTNAME_PATTERNS ! 1) (js ''172.'' @ s @ js ''.'' @ b @ js ''.'' @ c)"
proof -
  let ?p1 = "rev (js ''172.'')"
  let ?t = "(rev c @ rev (js ''.'') @ rev b @ rev (js ''.'') @ rev s @ ?p1, [])"
  have 2: "?t \<in> set (matchR (seq [octet_16_31, lit ''.'', digits_1_3, lit ''.'', digits_1_3, Eol])
              False (?p1, s @ js ''.'' @ b @ js ''.'' @ c))"
    using matches_second [OF assms(1), of ?p1 "js ''.'' @ b @ js ''.'' @ c"]
      matches_tail2 [OF assms(2,3), of "rev s @ ?p1"]
    by (rule matches_seq)
  have 1: "?t \<in> set (matchR (seq [lit ''172.'', octet_16_31, lit ''.'', digits_1_3, lit ''.'',
              digits_1_3, Eol]) False ([], js ''172.'' @ s @ js ''.'' @ b @ js ''.'' @ c))"
    using matches_lit [of "''172.''" "[]" "s @ js ''.'' @ b @ js ''.'' @ c"] 2
    unfolding js_map_ch append_Nil2 by (rule matches_seq)
  have "BLOCKED_HOSTNAME_PATTERNS ! 1
      = re [Bol, lit ''172.'', octet_16_31, lit ''.'', digits_1_3, lit ''.'', digits_1_3, Eol]"
    by (simp add: BLOCKED_HOSTNAME_PATTERNS_def)
  then show ?thesis using 1 by (simp only: test_from_match)
qed

lemma private_ipv4_matches:
  "private_ipv4_host h \<Longrightarrow> list_ex (\<lambda>p. test p h) BLOCKED_HOSTNAME_PATTERNS"
proof -
  assume "private_ipv4_host h"
  then have "test (BLOCKED_HOSTNAME_PATTERNS ! 0) h \<or> test (BLOCKED_HOSTNAME_PATTERNS ! 1) h
             \<or> test (BLOCKED_HOSTNAME_PATTERNS ! 2) h"
    unfolding private_ipv4_host_def
    using private_10_matches private_172_matches private_192_matches by blast
  moreover have "BLOCKED_HOSTNAME_PATTERNS ! 0 \<in> set BLOCKED_HOSTNAME_PATTERNS"
    "BLOCKED_HOSTNAME_PATTERNS ! 1 \<in> set BLOCKED_HOSTNAME_PATTERNS"
    "BLOCKED_HOSTNAME_PATTERNS ! 2 \<in> set BLOCKED_HOSTNAME_PATTERNS"
    by (rule nth_mem, simp add: BLOCKED_HOSTNAME_PATTERNS_def)+
  ultimately show ?thesis
    unfolding list_ex_iff by blast
qed

lemma validateUrl_private_ipv4_rejected:
  assumes "newURL input = Some url" and "private_ipv4_host (toLowerCase (hostname url))"
  shows "isl (validateUrl newURL toLowerCase input)"
  using assms(1) private_ipv4_matches [OF assms(2)] by (simp add: validateUrl_def Let_def)

lemma validateUrl_examples:
  assumes "newURL (js ''ftp://example.com'') = Some \<lparr>protocol = js ''ftp:'', hostname = js ''example.com''\<rparr>"
    and "newURL (js ''javascript:alert(1)'') = Some \<lparr>protocol = js ''javascript:'', hostname = []\<rparr>"
    and "newURL (js ''https://example.com'') = Some \<lparr>protocol = js ''https:'', hostname = js ''example.com''\<rparr>"
    and "toLowerCase (js ''example.com'') = js ''example.com''"
  shows "validateUrl newURL toLowerCase (js ''ftp://example.com'') = Inl (InvalidProtocol (js ''ftp:''))"
    and "validateUrl newURL toLowerCase (js ''javascript:alert(1)'')
           = Inl (InvalidProtocol (js ''javascript:''))"
    and "validateUrl newURL toLowerCase (js ''https://example.com'')
           = Inr \<lparr>protocol = js ''https:'', hostname = js ''example.com''\<rparr>"
proof -
  have f: "js ''ftp:'' \<noteq> js ''http:''" "js ''ftp:'' \<noteq> js ''https:''"
    "js ''javascript:'' \<noteq> js ''http:''" "js ''javascript:'' \<noteq> js ''https:''"
    by code_simp+
  show "validateUrl newURL toLowerCase (js ''ftp://example.com'') = Inl (InvalidProtocol (js ''ftp:''))"
    using assms(1) f by (simp add: validateUrl_protocol)
  show "validateUrl newURL toLowerCase (js ''javascript:alert(1)'')
           = Inl (InvalidProtocol (js ''javascript:''))"
    using assms(2) f by (simp add: validateUrl_protocol)
  have "js ''example.com'' \<notin> set BLOCKED_HOSTNAMES
        \<and> \<not> list_ex (\<lambda>p. test p (js ''example.com'')) BLOCKED_HOSTNAME_PATTERNS"
    by code_simp
  then show "validateUrl newURL toLowerCase (js ''https://example.com'')
           = Inr \<lparr>protocol = js ''https:'', hostname = js ''example.com''\<rparr>"
    using assms(3,4) by (simp add: validateUrl_accepts_iff)
qed

text \<open>
  C3. The hosts \<open>[fd00::1]\<close> and \<open>[fc00::1]\<close> are unique-local addresses (\<open>fc00::/7\<close>) and
  \<open>[fe80::1]\<close> is a link-local one (\<open>fe80::/10\<close>), written as \<open>URL.hostname\<close> gives an IPv6
  host, in brackets. None is in the block set and none matches a pattern: the two IPv6
  patterns are anchored at the first character, which is the bracket, and the first covers
  \<open>fc..:\<close> only, so that \<open>fd00::1\<close> passes even without brackets. A URL with protocol
  \<open>http:\<close> and one of these hosts is accepted.
\<close>

theorem validateUrl_ipv6_private_accepted:
  assumes "newURL input = Some url"
    and "protocol url = js ''http:''"
    and "toLowerCase (hostname url) \<in> {js ''[fd00::1]'', js ''fd00::1'', js ''[fc00::1]'', js ''[fe80::1]''}"
  shows "validateUrl newURL toLowerCase input = Inr url"
proof -
  have "toLowerCase (hostname url) \<notin> set BLOCKED_HOSTNAMES
        \<and> \<not> list_ex (\<lambda>p. test p (toLowerCase (hostname url))) BLOCKED_HOSTNAME_PATTERNS"
    using assms(3) ipv6_hosts_pass by auto
  then show ?thesis
    using assms(1,2) by (simp add: validateUrl_accepts_iff)
qed

theorem validateUrl_ipv6_private_accepted_witness:
  "validateUrl
     (\<lambda>s. if s = js ''http://[fd00::1]/''
          then Some \<lparr>protocol = js ''http:'', hostname = js ''[fd00::1]''\<rparr> else None)
     (map toLowerAscii) (js ''http://[fd00::1]/'')
   = Inr \<lparr>protocol = js ''http:'', hostname = js ''[fd00::1]''\<rparr>"
proof -
  let ?p = "\<lambda>s. if s = js ''http://[fd00::1]/''
          then Some \<lparr>protocol = js ''http:'', hostname = js ''[fd00::1]''\<rparr> else None"
  let ?u = "\<lparr>protocol = js ''http:'', hostname = js ''[fd00::1]''\<rparr>"
  have a: "?p (js ''http://[fd00::1]/'') = Some ?u" by simp
  have b: "protocol ?u = js ''http:''" by simp
  have "map toLowerAscii (js ''[fd00::1]'') = js ''[fd00::1]''" by code_simp
  then have c: "map toLowerAscii (hostname ?u)
      \<in> {js ''[fd00::1]'', js ''fd00::1'', js ''[fc00::1]'', js ''[fe80::1]''}"
    by simp
  show ?thesis
    using validateUrl_ipv6_private_accepted
      [where newURL = ?p and input = "js ''http://[fd00::1]/''" and url = ?u
         and toLowerCase = "map toLowerAscii"] a b c
    by blast
qed

section \<open>Package lists: the claims\<close>

lemma filter_removeAll_seen:
  "t \<in> seen \<Longrightarrow> filter (\<lambda>x. x \<notin> seen) (removeAll t xs) = filter (\<lambda>x. x \<notin> seen) xs"
  by (induction xs) auto

lemma filter_removeAll_insert:
  "filter (\<lambda>x. x \<notin> seen) (removeAll t xs) = filter (\<lambda>x. x \<notin> insert t seen) xs"
  by (induction xs) auto

lemma strings_of_append: "strings_of (xs @ ys) = strings_of xs @ strings_of ys"
  by (simp add: strings_of_def)

lemma strings_of_Cons:
  "strings_of (JString s # xs) = s # strings_of xs"
  "\<forall>s. v \<noteq> JString s \<Longrightarrow> strings_of (v # xs) = strings_of xs"
  by (cases v; auto simp: strings_of_def)+

lemma sanitize_loop_other:
  fixes String :: "'o jsval \<Rightarrow> 'x + jsstring"
  assumes "\<forall>s. v \<noteq> JString s"
  shows "sanitize_loop String (v # xs) seen valid invalid =
     (case String v of
        Inl thrown \<Rightarrow> Inl thrown
      | Inr s \<Rightarrow> sanitize_loop String xs seen valid (invalid @ [s]))"
  using assms by (cases v) auto

lemma adds_invalid_other:
  "\<forall>s. v \<noteq> JString s \<Longrightarrow>
     adds_invalid String earlier v = (case String v of Inl thrown \<Rightarrow> [] | Inr s \<Rightarrow> [s])"
  by (cases v) (auto simp: adds_invalid_def)

lemma converts_Cons:
  "converts String (JString s # xs) = converts String xs"
  "\<forall>s. v \<noteq> JString s \<Longrightarrow> converts String (v # xs) \<longleftrightarrow> (\<exists>s. String v = Inr s) \<and> converts String xs"
  by (cases v; auto simp: converts_def)+

lemma sanitize_loop_result:
  fixes String :: "'o jsval \<Rightarrow> 'x + jsstring"
  assumes "converts String xs" and "seen = set (map trim (strings_of pre))"
  shows "sanitize_loop String xs seen valid invalid =
     Inr (valid @ filter (\<lambda>t. validatePackageName (JString t :: 'o jsval))
                    (filter (\<lambda>t. t \<notin> seen) (dedup_first (map trim (strings_of xs)))),
          invalid @ concat (map (\<lambda>i. adds_invalid String (pre @ take i xs) (xs ! i))
                              [0..<length xs]))"
  using assms
proof (induction xs arbitrary: pre seen valid invalid)
  case Nil
  then show ?case by (simp add: strings_of_def)
next
  case (Cons v xs)
  have "[0..<Suc (length xs)] = 0 # [Suc 0..<Suc (length xs)]"
    by (rule upt_conv_Cons) simp
  then have idx: "[0..<length (v # xs)] = 0 # map Suc [0..<length xs]"
    by (simp only: length_Cons map_Suc_upt)
  have shift: "map (\<lambda>i. adds_invalid String (pre @ take i (v # xs)) ((v # xs) ! i)) [0..<length (v # xs)]
      = adds_invalid String pre v
        # map (\<lambda>i. adds_invalid String ((pre @ [v]) @ take i xs) (xs ! i)) [0..<length xs]"
    unfolding idx by simp
  show ?case
  proof (cases "\<exists>s. v = JString s")
    case True
    then obtain s where v: "v = JString s" by blast
    have conv: "converts String xs"
      using Cons.prems(1) v by (simp add: converts_Cons)
    have seen': "insert (trim s) seen = set (map trim (strings_of (pre @ [v])))"
      using Cons.prems(2) v by (simp add: strings_of_append strings_of_Cons) (simp add: strings_of_def)
    show ?thesis
    proof (cases "trim s \<in> seen")
      case True
      then have "insert (trim s) seen = seen" by (rule insert_absorb)
      with seen' have same: "seen = set (map trim (strings_of (pre @ [v])))"
        by simp
      have "adds_invalid String pre v = []"
        using True Cons.prems(2) v by (simp add: adds_invalid_def)
      then show ?thesis
        unfolding shift
        using True v Cons.IH [OF conv same, of valid invalid]
        by (simp add: strings_of_Cons filter_removeAll_seen)
    next
      case False
      show ?thesis
      proof (cases "validatePackageName (JString (trim s) :: 'o jsval)")
        case True
        have "adds_invalid String pre v = []"
          using True v by (simp add: adds_invalid_def)
        then show ?thesis
          unfolding shift
          using False True v Cons.IH [OF conv seen', of "valid @ [trim s]" invalid]
          by (simp add: Let_def strings_of_Cons filter_removeAll_insert)
      next
        case nv: False
        have "adds_invalid String pre v = [trim s]"
          using False nv Cons.prems(2) v by (simp add: adds_invalid_def)
        then show ?thesis
          unfolding shift
          using False nv v Cons.IH [OF conv seen', of valid "invalid @ [trim s]"]
          by (simp add: Let_def strings_of_Cons filter_removeAll_insert)
      qed
    qed
  next
    case False
    then have ns: "\<forall>s. v \<noteq> JString s" by blast
    from Cons.prems(1) obtain u where u: "String v = Inr u" and conv: "converts String xs"
      using converts_Cons(2) [OF ns] by blast
    have same: "seen = set (map trim (strings_of (pre @ [v])))"
      using Cons.prems(2) ns by (simp add: strings_of_append strings_of_Cons) (simp add: strings_of_def)
    have "adds_invalid String pre v = [u]"
      using u ns by (simp add: adds_invalid_other)
    then show ?thesis
      unfolding shift sanitize_loop_other [OF ns]
      using u Cons.IH [OF conv same, of valid "invalid @ [u]"]
      by (simp add: strings_of_Cons(2) [OF ns])
  qed
qed

lemma sanitize_loop_throws:
  fixes String :: "'o jsval \<Rightarrow> 'x + jsstring"
  shows "\<not> converts String xs \<Longrightarrow> isl (sanitize_loop String xs seen valid invalid)"
proof (induction xs arbitrary: seen valid invalid)
  case Nil
  then show ?case by (simp add: converts_def)
next
  case (Cons v xs)
  show ?case
  proof (cases "\<exists>s. v = JString s")
    case True
    then obtain s where v: "v = JString s" by blast
    with Cons.prems have "\<not> converts String xs" by (simp add: converts_Cons)
    then show ?thesis using v Cons.IH by (simp add: Let_def)
  next
    case False
    then have ns: "\<forall>s. v \<noteq> JString s" by blast
    show ?thesis
    proof (cases "String v")
      case (Inl thrown)
      show ?thesis unfolding sanitize_loop_other [OF ns] Inl by simp
    next
      case (Inr u)
      with Cons.prems have "\<not> converts String xs"
        using converts_Cons(2) [OF ns] by blast
      then show ?thesis unfolding sanitize_loop_other [OF ns] Inr using Cons.IH by simp
    qed
  qed
qed

lemma sanitizePackageList_throws:
  "\<not> converts String xs \<Longrightarrow> isl (sanitizePackageList String (JArray xs))"
  by (simp add: sanitizePackageList_def sanitize_loop_throws)

lemma invalid_entries_strings:
  fixes String :: "'o jsval \<Rightarrow> 'x + jsstring"
  shows "concat (map (\<lambda>i. adds_invalid String (pre @ take i (map JString ss)) (map JString ss ! i))
              [0..<length ss])
     = filter (\<lambda>t. \<not> validatePackageName (JString t :: 'o jsval))
         (filter (\<lambda>t. t \<notin> set (map trim (strings_of pre))) (dedup_first (map trim ss)))"
proof (induction ss arbitrary: pre)
  case Nil
  then show ?case by simp
next
  case (Cons s ss)
  have "[0..<Suc (length ss)] = 0 # [Suc 0..<Suc (length ss)]"
    by (rule upt_conv_Cons) simp
  then have idx: "[0..<length (s # ss)] = 0 # map Suc [0..<length ss]"
    by (simp only: length_Cons map_Suc_upt)
  have so: "set (map trim (strings_of (pre @ [JString s])))
      = insert (trim s) (set (map trim (strings_of pre)))"
    by (simp add: strings_of_append) (simp add: strings_of_def)
  have step: "concat (map (\<lambda>i. adds_invalid String (pre @ take i (map JString (s # ss)))
                  (map JString (s # ss) ! i)) [0..<length (s # ss)])
      = adds_invalid String pre (JString s)
        @ concat (map (\<lambda>i. adds_invalid String ((pre @ [JString s]) @ take i (map JString ss))
                  (map JString ss ! i)) [0..<length ss])"
    unfolding idx by (simp add: comp_def)
  show ?case
    unfolding step Cons.IH so
    by (simp add: adds_invalid_def filter_removeAll_insert filter_removeAll_seen)
qed

lemma strings_of_map: "strings_of (map JString ss) = ss"
  by (induction ss) (simp_all add: strings_of_def)

lemma converts_strings: "converts String (map JString ss)"
  by (simp add: converts_def list_all_iff)

lemma sanitizePackageList_array:
  fixes String :: "'o jsval \<Rightarrow> 'x + jsstring"
  assumes "converts String xs"
  shows "sanitizePackageList String (JArray xs) =
     Inr (filter (\<lambda>t. validatePackageName (JString t :: 'o jsval))
            (dedup_first (map trim (strings_of xs))),
          invalid_entries String xs)"
  using sanitize_loop_result [OF assms, of "{}" "[]" "[]" "[]"]
  by (simp add: sanitizePackageList_def invalid_entries_def strings_of_def)

lemma sanitizePackageList_strings:
  fixes String :: "'o jsval \<Rightarrow> 'x + jsstring"
  shows "sanitizePackageList String (JArray (map JString ss)) =
     Inr (filter (\<lambda>t. validatePackageName (JString t :: 'o jsval)) (dedup_first (map trim ss)),
          filter (\<lambda>t. \<not> validatePackageName (JString t :: 'o jsval)) (dedup_first (map trim ss)))"
proof -
  have "invalid_entries String (map JString ss)
      = filter (\<lambda>t. \<not> validatePackageName (JString t :: 'o jsval)) (dedup_first (map trim ss))"
    using invalid_entries_strings [of String "[]" ss]
    by (simp add: invalid_entries_def) (simp add: strings_of_def)
  then show ?thesis
    using sanitizePackageList_array [OF converts_strings, of String ss]
    by (simp only: strings_of_map)
qed

text \<open>
  C7. A value that is not an array gives two empty lists. For an array whose entries that
  are not strings all convert with \<open>String\<close>, the string entries are trimmed and
  deduplicated by exact match of their trimmed forms, the first occurrence staying;
  \<open>valid\<close> is the list of the valid ones in that order. \<open>invalid\<close> lists, in the order of
  the array, \<open>String(entry)\<close> for every entry that is not a string and the trimmed form of
  every string entry that is the first with its trimmed form and not a valid name; for an
  array of strings these are the invalid ones of the deduplicated list.
  \<open>sanitizePackageList(["react", "react", "lodash", ""])\<close> has \<open>valid = ["react", "lodash"]\<close>.
\<close>

theorem sanitizePackageList_spec:
  fixes String :: "'o jsval \<Rightarrow> 'x + jsstring"
  defines "ok \<equiv> (\<lambda>t. validatePackageName (JString t :: 'o jsval))"
  shows "((\<forall>xs. v \<noteq> JArray xs) \<longrightarrow> sanitizePackageList String v = Inr ([], []))
       \<and> (converts String xs \<longrightarrow>
            sanitizePackageList String (JArray xs)
              = Inr (filter ok (dedup_first (map trim (strings_of xs))), invalid_entries String xs))
       \<and> sanitizePackageList String (JArray (map JString ss))
           = Inr (filter ok (dedup_first (map trim ss)),
                  filter (\<lambda>t. \<not> ok t) (dedup_first (map trim ss)))
       \<and> sanitizePackageList String
            (JArray (map JString [js ''react'', js ''react'', js ''lodash'', js '''']))
           = Inr ([js ''react'', js ''lodash''], [js ''''])"
proof -
  have a: "(\<forall>xs. v \<noteq> JArray xs) \<longrightarrow> sanitizePackageList String v = Inr ([], [])"
    by (cases v) (simp_all add: sanitizePackageList_def)
  have b: "converts String xs \<longrightarrow>
            sanitizePackageList String (JArray xs)
              = Inr (filter ok (dedup_first (map trim (strings_of xs))), invalid_entries String xs)"
    unfolding ok_def using sanitizePackageList_array by blast
  have c: "sanitizePackageList String (JArray (map JString ss))
           = Inr (filter ok (dedup_first (map trim ss)),
                  filter (\<lambda>t. \<not> ok t) (dedup_first (map trim ss)))" for ss
    unfolding ok_def by (rule sanitizePackageList_strings)
  have ex: "filter (\<lambda>t. t \<noteq> [] \<and> trim t \<noteq> [] \<and> length (trim t) \<le> 214 \<and> test VALID_PACKAGE_PATTERN (trim t))
              (dedup_first (map trim [js ''react'', js ''react'', js ''lodash'', js '''']))
            = [js ''react'', js ''lodash'']"
    "filter (\<lambda>t. \<not> (t \<noteq> [] \<and> trim t \<noteq> [] \<and> length (trim t) \<le> 214 \<and> test VALID_PACKAGE_PATTERN (trim t)))
              (dedup_first (map trim [js ''react'', js ''react'', js ''lodash'', js '''']))
            = [js '''']"
    by code_simp+
  have d: "sanitizePackageList String
            (JArray (map JString [js ''react'', js ''react'', js ''lodash'', js '''']))
           = Inr ([js ''react'', js ''lodash''], [js ''''])"
    unfolding c ok_def validatePackageName_test ex ..
  from a b c d show ?thesis by blast
qed

theorem sanitizePackageList_spec_witness:
  "sanitizePackageList (\<lambda>v. Inr (js ''null'') :: unit + jsstring) (JOther () :: unit jsval)
     = Inr ([], [])
   \<and> sanitizePackageList (\<lambda>v. Inr (js ''null'') :: unit + jsstring)
        (JArray [JString (js '' react ''), JOther (), JString (js ''react''), JString (js ''_x'')]
           :: unit jsval)
     = Inr ([js ''react''], [js ''null'', js ''_x''])"
proof -
  let ?S = "\<lambda>v :: unit jsval. Inr (js ''null'') :: unit + jsstring"
  let ?xs = "[JString (js '' react ''), JOther (), JString (js ''react''), JString (js ''_x'')]
               :: unit jsval list"
  have a: "\<forall>xs. (JOther () :: unit jsval) \<noteq> JArray xs" by simp
  have b: "converts ?S ?xs" by (simp add: converts_def)
  have c: "filter (\<lambda>t. validatePackageName (JString t :: unit jsval))
             (dedup_first (map trim (strings_of ?xs))) = [js ''react'']"
    by code_simp
  have d: "invalid_entries ?S ?xs = [js ''null'', js ''_x'']"
    by code_simp
  show ?thesis
    using sanitizePackageList_spec [of "JOther () :: unit jsval" ?S ?xs] a b c d
    by simp
qed

text \<open>
  The entries \<open>" react"\<close> and \<open>"react"\<close> are different strings and both are valid names;
  deduplication by exact match of the entries keeps both. The function trims before it
  compares and returns one. An array with an entry for which \<open>String\<close> throws gives no
  lists at all.
\<close>

theorem sanitizePackageList_trim_counterexample:
  "js '' react'' \<noteq> js ''react''
   \<and> claimed_sanitize [js '' react'', js ''react''] = ([js '' react'', js ''react''], [])
   \<and> sanitizePackageList (\<lambda>v. Inr (js ''null'') :: unit + jsstring)
         (JArray [JString (js '' react''), JString (js ''react'')] :: unit jsval)
       = Inr ([js ''react''], [])
   \<and> sanitizePackageList (\<lambda>v. Inl () :: unit + jsstring)
         (JArray [JObject [(js ''toString'', JOther ())]] :: unit jsval)
       = Inl ()"
  by code_simp

section \<open>Safe error responses: the claim\<close>

lemma GENERIC_ERROR_not_empty: "GENERIC_ERROR \<noteq> []"
  by (simp add: GENERIC_ERROR_def js_def)

lemma readable_message_Error:
  "readable_message (JError e) = (if message e = [] then None else Some (message e))"
  by (simp add: readable_message_def carried_message_def)

text \<open>
  C9. The result has the two fields \<open>error\<close> and \<open>context\<close>, and \<open>context\<close> is the context
  given. For a caught \<open>Error\<close> instance the \<open>error\<close> field is its \<open>message\<close>, empty or
  not and whatever it says; for every other caught value, a thrown string and an object
  with a \<open>message\<close> property among them, it is the fixed generic message. So the function
  surfaces the readable message of the caught value, and the generic message when there is
  none, exactly for the \<open>Error\<close> instances with a non-empty message and for the other
  values that carry no readable message (or carry the generic one). Beside the message of
  an \<open>Error\<close>, nothing of the caught value reaches the result.
\<close>

theorem safeErrorResponse_spec:
  "context' (safeErrorResponse v c) = c
   \<and> safeErrorResponse (JError e) c = \<lparr>error = message e, context' = c\<rparr>
   \<and> ((\<forall>e'. v \<noteq> JError e') \<longrightarrow>
        safeErrorResponse v c = \<lparr>error = GENERIC_ERROR, context' = c\<rparr>)
   \<and> (safeErrorResponse v c = claimed_response v c \<longleftrightarrow>
        (\<exists>e'. v = JError e' \<and> message e' \<noteq> [])
        \<or> ((\<forall>e'. v \<noteq> JError e')
            \<and> (readable_message v = None \<or> readable_message v = Some GENERIC_ERROR)))
   \<and> safeErrorResponse (JError (e\<lparr>stack := s, error_name := n\<rparr>)) c = safeErrorResponse (JError e) c"
proof -
  have a: "context' (safeErrorResponse v c) = c"
    by (cases v) (simp_all add: safeErrorResponse_def)
  have b: "safeErrorResponse (JError e) c = \<lparr>error = message e, context' = c\<rparr>"
    by (simp add: safeErrorResponse_def)
  have c: "safeErrorResponse v c = \<lparr>error = GENERIC_ERROR, context' = c\<rparr>" if "\<forall>e'. v \<noteq> JError e'"
    using that by (cases v) (simp_all add: safeErrorResponse_def)
  have d: "safeErrorResponse v c = claimed_response v c \<longleftrightarrow>
        (\<exists>e'. v = JError e' \<and> message e' \<noteq> [])
        \<or> ((\<forall>e'. v \<noteq> JError e')
            \<and> (readable_message v = None \<or> readable_message v = Some GENERIC_ERROR))"
  proof (cases "\<exists>e'. v = JError e'")
    case True
    then obtain e' where v: "v = JError e'" by blast
    show ?thesis
      unfolding v
      using GENERIC_ERROR_not_empty
      by (auto simp: safeErrorResponse_def claimed_response_def readable_message_Error)
  next
    case False
    then have ne: "\<forall>e'. v \<noteq> JError e'" by blast
    have "safeErrorResponse v c = claimed_response v c \<longleftrightarrow>
        (readable_message v = None \<or> readable_message v = Some GENERIC_ERROR)"
      unfolding c [OF ne] claimed_response_def
      by (cases "readable_message v") auto
    with ne show ?thesis by blast
  qed
  have e: "safeErrorResponse (JError (e\<lparr>stack := s, error_name := n\<rparr>)) c
        = safeErrorResponse (JError e) c"
    by (simp add: safeErrorResponse_def)
  from a b c d e show ?thesis by blast
qed

theorem safeErrorResponse_spec_witness:
  "safeErrorResponse (JString (js ''boom'') :: unit jsval) (js ''run-command'')
     = \<lparr>error = GENERIC_ERROR, context' = js ''run-command''\<rparr>
   \<and> safeErrorResponse (JOther ()) (js ''run-command'')
     = \<lparr>error = GENERIC_ERROR, context' = js ''run-command''\<rparr>"
proof -
  have "\<forall>e'. (JString (js ''boom'') :: unit jsval) \<noteq> JError e'" by simp
  moreover have "\<forall>e'. (JOther () :: unit jsval) \<noteq> JError e'" by simp
  ultimately show ?thesis
    using safeErrorResponse_spec [of "JString (js ''boom'') :: unit jsval" "js ''run-command''"]
      safeErrorResponse_spec [of "JOther () :: unit jsval" "js ''run-command''"]
    by blast
qed

text \<open>
  A thrown string and an object with a \<open>message\<close> property carry a readable message and
  get the generic one; an \<open>Error\<close> with an empty message gets the empty string and not the
  generic message; and a message that is itself the text of a stack frame is the \<open>error\<close>
  field as it stands.
\<close>

theorem safeErrorResponse_message_counterexample:
  "readable_message (JString (js ''disk full'') :: unit jsval) = Some (js ''disk full'')
   \<and> error (safeErrorResponse (JString (js ''disk full'') :: unit jsval) (js ''install''))
       = GENERIC_ERROR
   \<and> js ''disk full'' \<noteq> GENERIC_ERROR
   \<and> readable_message (JObject [(js ''message'', JString (js ''boom''))] :: unit jsval)
       = Some (js ''boom'')
   \<and> error (safeErrorResponse (JObject [(js ''message'', JString (js ''boom''))] :: unit jsval)
        (js ''install'')) = GENERIC_ERROR
   \<and> js ''boom'' \<noteq> GENERIC_ERROR
   \<and> readable_message (JError \<lparr>error_name = js ''Error'', message = [], stack = None\<rparr>
        :: unit jsval) = None
   \<and> error (safeErrorResponse (JError \<lparr>error_name = js ''Error'', message = [], stack = None\<rparr>
        :: unit jsval) (js ''install'')) = []
   \<and> [] \<noteq> GENERIC_ERROR
   \<and> error (safeErrorResponse
        (JError \<lparr>error_name = js ''Error'', message = js ''at run (/srv/app/worker.js:10:3)'',
                 stack = Some (js ''at run (/srv/app/worker.js:10:3)'')\<rparr> :: unit jsval)
        (js ''install'')) = js ''at run (/srv/app/worker.js:10:3)''"
  by code_simp

section \<open>Rate limiting: the claims\<close>

subsection \<open>Rounding\<close>









subsection \<open>The window\<close>






subsection \<open>One call\<close>



lemma bucket_upd_other: "k \<noteq> key \<Longrightarrow> bucket (st(key \<mapsto> e)) k = bucket st k"
  by (simp add: bucket_def)









subsection \<open>The result of a call\<close>




subsection \<open>Runs\<close>


















end
